theory Spec2Isabelle
  imports Main
begin

section \<open>Data model\<close>

text \<open>
  HierCC.py works on numpy integer matrices. A profile matrix \<open>mat\<close> has one row per
  profile: the type id in column 0, then one allele call per locus (a value \<open>\<le> 0\<close> is a
  missing call). The code matrix \<open>res\<close> has one more column than \<open>mat\<close>: column 0 is
  the type id again and column \<open>t + 1\<close> is the cluster code at threshold \<open>t\<close> (the
  report's header names it \<open>HCt\<close>). Matrices are lists of rows; ids, allele calls and
  codes are unbounded integers (no arithmetic is done on them that could overflow).
\<close>

type_synonym profile = "int list"
type_synonym matrix = "int list list"

text \<open>One row of \<open>slc.astype(int)\<close>: the two merged nodes and the merge distance.\<close>

type_synonym merge_row = "nat \<times> nat \<times> nat"

datatype error = ValueError | AttributeError | IndexError | TypeError | KeyError | OverflowError

section \<open>Loading: \<open>prepare_mat\<close>\<close>

text \<open>
  The argument is the array \<open>pd.read_csv(..., header=None, dtype=str).values\<close>: a
  rectangular table of cells, \<open>None\<close> standing for the NaN the reader puts where a line
  has fewer fields than the table has columns. Python's conversion of one string to an
  integer is the parameter \<open>conv\<close> (\<open>None\<close> where it raises ValueError).
\<close>

text \<open>The values of numpy's \<open>int\<close>, a 64-bit signed integer.\<close>

definition int64 :: "int \<Rightarrow> bool" where
  "int64 v = (- (2 ^ 63) \<le> v \<and> v < 2 ^ 63)"

fun startswith_hash :: "string \<Rightarrow> bool" where
  "startswith_hash [] = False"
| "startswith_hash (c # cs) = (c = CHR ''#'')"

fun allele_columns :: "nat \<Rightarrow> string option list \<Rightarrow> error + bool list" where
  "allele_columns i [] = Inr []"
| "allele_columns i (h # hs) =
     (if i = 0 then
        (case allele_columns (Suc i) hs of Inl e \<Rightarrow> Inl e | Inr bs \<Rightarrow> Inr (True # bs))
      else
        (case h of
           None \<Rightarrow> Inl AttributeError
         | Some s \<Rightarrow>
             (case allele_columns (Suc i) hs of
                Inl e \<Rightarrow> Inl e
              | Inr bs \<Rightarrow> Inr ((\<not> startswith_hash s) # bs))))"

definition select_cols :: "bool list \<Rightarrow> 'a list \<Rightarrow> 'a list" where
  "select_cols bs row = map snd (filter fst (zip bs row))"

text \<open>
  \<open>astype(int)\<close> converts each cell as Python's \<open>int\<close> does and stores the value in a
  64-bit signed integer: a NaN cell raises ValueError, a value that does not fit raises
  OverflowError. The cells are converted one after the other, and the first that fails
  decides the error.
\<close>

fun astype_int :: "(string \<Rightarrow> int option) \<Rightarrow> string option list \<Rightarrow> error + int list" where
  "astype_int conv [] = Inr []"
| "astype_int conv (c # cs) =
     (case c of
        None \<Rightarrow> Inl ValueError
      | Some s \<Rightarrow>
          (case conv s of
             None \<Rightarrow> Inl ValueError
           | Some v \<Rightarrow>
               if \<not> int64 v then Inl OverflowError
               else (case astype_int conv cs of Inl e \<Rightarrow> Inl e | Inr vs \<Rightarrow> Inr (v # vs))))"

text \<open>The same for a list of lists of cells, one list after the other.\<close>

fun astype_rows :: "(string \<Rightarrow> int option) \<Rightarrow> string option list list \<Rightarrow> error + matrix" where
  "astype_rows conv [] = Inr []"
| "astype_rows conv (r # rs) =
     (case astype_int conv r of
        Inl e \<Rightarrow> Inl e
      | Inr v \<Rightarrow> (case astype_rows conv rs of Inl e \<Rightarrow> Inl e | Inr vs \<Rightarrow> Inr (v # vs)))"

text \<open>
  The cells are visited in the order of the array's memory. The array that the mask of
  line 47 selects holds its columns one after the other, so the conversion goes column
  by column: \<open>transpose m\<close> is the list of the columns of a table \<open>m\<close>.
\<close>

definition astype :: "(string \<Rightarrow> int option) \<Rightarrow> string option list list \<Rightarrow> error + matrix" where
  "astype conv m =
     (case astype_rows conv (transpose m) of
        Inl e \<Rightarrow> Inl e
      | Inr columns \<Rightarrow> Inr (transpose columns))"

definition prepare_mat :: "(string \<Rightarrow> int option) \<Rightarrow> string option list list \<Rightarrow> error + matrix" where
  "prepare_mat conv tbl =
     (case tbl of
        [] \<Rightarrow> Inl IndexError
      | header # rows \<Rightarrow>
          (case allele_columns 0 header of
             Inl e \<Rightarrow> Inl e
           | Inr cols \<Rightarrow>
               (case astype conv (map (select_cols cols) rows) of
                  Inl e \<Rightarrow> Inl e
                | Inr m \<Rightarrow>
                    if header = [] then Inl IndexError
                    else Inr (filter (\<lambda>r. hd r > 0) m))))"

text \<open>A conversion for plain decimal numerals with an optional sign, to run examples.\<close>

fun digits_val :: "nat \<Rightarrow> string \<Rightarrow> nat option" where
  "digits_val acc [] = Some acc"
| "digits_val acc (c # cs) =
     (if 48 \<le> (of_char c :: nat) \<and> (of_char c :: nat) \<le> 57
      then digits_val (10 * acc + (of_char c - 48)) cs else None)"

fun decimal :: "string \<Rightarrow> int option" where
  "decimal [] = None"
| "decimal (c # cs) =
     (if c = CHR ''-'' then (if cs = [] then None else map_option (\<lambda>n. - int n) (digits_val 0 cs))
      else if c = CHR ''+'' then (if cs = [] then None else map_option int (digits_val 0 cs))
      else map_option int (digits_val 0 (c # cs)))"

section \<open>Distances\<close>

text \<open>
  Modelled from the spec: the module \<open>getDistance\<close> that HierCC.py imports is not among
  the sources. The spec gives the distance of two profiles as the count of loci where
  both allele calls are known (\<open>> 0\<close>) and differ. In symmetric mode (\<open>syn_dist\<close>) line 94
  adds the transpose to the matrix returned, so the matrix returned holds each pair
  once, below the diagonal, and the sum is the symmetric matrix with zero diagonal that
  the spec describes. In asymmetric mode (\<open>asyn_dist\<close>) there is one row for each
  profile from index \<open>start\<close> on, with a column for every profile.
\<close>

definition allelic_distance :: "profile \<Rightarrow> profile \<Rightarrow> nat" where
  "allelic_distance p q =
     length (filter (\<lambda>(a, b). a > 0 \<and> b > 0 \<and> a \<noteq> b) (zip (tl p) (tl q)))"

text \<open>
  Modelled from the spec: \<open>getDistance(mat, 'syn_dist', pool, start).dist\<close>, the cells
  below the diagonal filled.
\<close>

definition syn_dist :: "matrix \<Rightarrow> nat list list" where
  "syn_dist mat =
     map (\<lambda>i. map (\<lambda>j. if j < i then allelic_distance (mat ! i) (mat ! j) else 0)
                 [0..<length mat]) [0..<length mat]"

text \<open>
  Modelled from the spec: \<open>getDistance(mat, 'asyn_dist', pool, start).dist\<close>, a row for
  each profile from \<open>start\<close> on.
\<close>

definition asyn_dist :: "matrix \<Rightarrow> nat \<Rightarrow> nat list list" where
  "asyn_dist mat start =
     map (\<lambda>i. map (\<lambda>j. allelic_distance (mat ! i) (mat ! j)) [0..<length mat])
         [start..<length mat]"

text \<open>\<open>dist.dist += dist.dist.T\<close> on a square matrix.\<close>

definition add_transpose :: "nat list list \<Rightarrow> nat list list" where
  "add_transpose d =
     map (\<lambda>i. map (\<lambda>j. d ! i ! j + d ! j ! i) [0..<length d]) [0..<length d]"

section \<open>Ordering and initial code matrix\<close>

definition absence :: "profile \<Rightarrow> nat" where
  "absence row = length (filter (\<lambda>v. v \<le> 0) row)"

text \<open>\<open>{c: id for id, c in enumerate(cls.T[0]) if c > 0}\<close>: a later row wins.\<close>

definition typed_of :: "matrix \<Rightarrow> int \<rightharpoonup> nat" where
  "typed_of cls =
     map_of (rev (filter (\<lambda>(c, i). c > 0) (zip (map hd cls) [0..<length cls])))"

text \<open>Lines 83 to 85.\<close>

definition init_res :: "matrix \<Rightarrow> matrix" where
  "init_res mat =
     (let ids = map hd mat;
          big = Max (set ids) + 100
      in map (\<lambda>r. hd r # replicate (length r) (if hd r < 0 then big else hd r)) mat)"

text \<open>The slice assignment \<open>tgt[k:] = src[k:]\<close> on two rows of one matrix.\<close>

definition overwrite_from :: "nat \<Rightarrow> int list \<Rightarrow> int list \<Rightarrow> int list" where
  "overwrite_from k tgt src = take k tgt @ drop k src"

section \<open>Encoding the dendrogram (lines 98 to 106)\<close>

text \<open>\<open>{s: i for i, s in enumerate(mat.T[0])}\<close>: a later row wins.\<close>

definition index_of :: "int list \<Rightarrow> int \<rightharpoonup> nat" where
  "index_of ids = map_of (rev (zip ids [0..<length ids]))"

text \<open>
  The inner loop over the absorbed leaves: the row of each is overwritten from column
  \<open>k\<close> on with the row of the anchor leaf.
\<close>

fun absorb :: "(int \<rightharpoonup> nat) \<Rightarrow> nat \<Rightarrow> int \<Rightarrow> int list \<Rightarrow> matrix \<Rightarrow> error + matrix" where
  "absorb index k min_id [] res = Inr res"
| "absorb index k min_id (tgt # tgts) res =
     (case (index tgt, index min_id) of
        (Some i, Some a) \<Rightarrow>
          absorb index k min_id tgts (res[i := overwrite_from k (res ! i) (res ! a)])
      | _ \<Rightarrow> Inl KeyError)"

text \<open>
  One pass of the loop of line 100. \<open>descendents\<close> is the list of line 99: the leaves'
  singleton lists, then \<open>None\<close> for the nodes not yet made.
\<close>

definition merge_event ::
  "(int \<rightharpoonup> nat) \<Rightarrow> nat \<Rightarrow> merge_row \<Rightarrow> int list option list \<times> matrix
     \<Rightarrow> error + int list option list \<times> matrix" where
  "merge_event index n_id c st =
     (case (c, st) of ((c0, c1, c2), (descendents, res)) \<Rightarrow>
        if c0 \<ge> length descendents \<or> c1 \<ge> length descendents then Inl IndexError
        else
          (case (descendents ! c0, descendents ! c1) of
             (Some x0, Some x1) \<Rightarrow>
               if x0 = [] \<or> x1 = [] then Inl IndexError
               else
                 let d0 = (if hd x0 \<le> hd x1 then x0 else x1);
                     d1 = (if hd x0 \<le> hd x1 then x1 else x0);
                     min_id = min_list d0
                 in if n_id \<ge> length descendents then Inl IndexError
                    else
                      (case absorb index (c2 + 1) min_id d1 res of
                         Inl e \<Rightarrow> Inl e
                       | Inr res' \<Rightarrow> Inr (descendents[n_id := Some (d0 @ d1)], res'))
           | _ \<Rightarrow> Inl TypeError))"

fun encode ::
  "(int \<rightharpoonup> nat) \<Rightarrow> nat \<Rightarrow> merge_row list \<Rightarrow> int list option list \<times> matrix
     \<Rightarrow> error + int list option list \<times> matrix" where
  "encode index n_id [] st = Inr st"
| "encode index n_id (c # cs) st =
     (case merge_event index n_id c st of
        Inl e \<Rightarrow> Inl e
      | Inr st' \<Rightarrow> encode index (Suc n_id) cs st')"

section \<open>Attaching to the nearest neighbour (lines 108 to 114)\<close>

text \<open>\<open>np.argmin\<close>: the first position of the least value.\<close>

fun argmin :: "nat list \<Rightarrow> nat" where
  "argmin [] = 0"
| "argmin [x] = 0"
| "argmin (x # y # ys) =
     (let i = argmin (y # ys) in if x \<le> (y # ys) ! i then 0 else Suc i)"

text \<open>The body of the loop for the row at index \<open>k = id + start\<close>, with its distances \<open>d\<close>.\<close>

definition attach_row :: "nat \<Rightarrow> nat list \<Rightarrow> matrix \<Rightarrow> error + matrix" where
  "attach_row k d res =
     (if k > 0 then
        if take k d = [] then Inl ValueError
        else
          let i = argmin (take k d);
              min_d = d ! i
          in if k \<ge> length res \<or> min_d + 1 \<ge> length (res ! k) \<or> min_d + 1 \<ge> length (res ! i)
             then Inl IndexError
             else if res ! k ! (min_d + 1) > res ! i ! (min_d + 1)
             then Inr (res[k := overwrite_from (min_d + 1) (res ! k) (res ! i)])
             else Inr res
      else Inr res)"

fun attach :: "nat \<Rightarrow> nat list list \<Rightarrow> matrix \<Rightarrow> error + matrix" where
  "attach k [] res = Inr res"
| "attach k (d # ds) res =
     (if k \<ge> length res then Inr res
      else
        (case attach_row k d res of
           Inl e \<Rightarrow> Inl e
         | Inr res' \<Rightarrow> attach (Suc k) ds res'))"

text \<open>Line 116: \<open>res.T[0] = mat.T[0]\<close>.\<close>

definition set_ids :: "matrix \<Rightarrow> matrix \<Rightarrow> matrix" where
  "set_ids mat res = map (\<lambda>(m, r). hd m # tl r) (zip mat res)"

section \<open>The two kinds of run\<close>

text \<open>
  A run without \<open>--append\<close>. \<open>linkage\<close> stands for
  \<open>scipy.cluster.hierarchy.linkage(squareform(d), method='single')\<close>, a library routine:
  it is a parameter, given the symmetric distance matrix and returning the rows of the
  linkage matrix as integers. The library refuses fewer than two observations, and
  \<open>mat.T[0]\<close> needs a column. The rows of the result are in the order of line 69.
\<close>

definition order_full :: "matrix \<Rightarrow> matrix" where
  "order_full mat = sort_key absence mat"

definition initial_descendents :: "matrix \<Rightarrow> int list option list" where
  "initial_descendents mat = map (\<lambda>m. Some [hd m]) mat @ replicate (length mat - 1) None"

definition encode_full ::
  "(nat list list \<Rightarrow> merge_row list) \<Rightarrow> matrix \<Rightarrow> error + int list option list \<times> matrix" where
  "encode_full linkage mat =
     encode (index_of (map hd mat)) (length mat) (linkage (add_transpose (syn_dist mat)))
       (initial_descendents mat, init_res mat)"

definition hierCC_full :: "(nat list list \<Rightarrow> merge_row list) \<Rightarrow> matrix \<Rightarrow> error + matrix" where
  "hierCC_full linkage mat0 =
     (let mat = order_full mat0
      in if [] \<in> set mat then Inl IndexError
         else if length mat < 2 then Inl ValueError
         else
           (case encode_full linkage mat of
              Inl e \<Rightarrow> Inl e
            | Inr (descendents, res) \<Rightarrow>
                (case attach 0 (asyn_dist mat 0) res of
                   Inl e \<Rightarrow> Inl e
                 | Inr res' \<Rightarrow> Inr (set_ids mat res'))))"

text \<open>
  A run with \<open>--append\<close>; \<open>cls\<close> is the matrix \<open>hierCC\<close> of the snapshot. Lines 89 to 91
  copy the snapshot row over the row of a typed profile; numpy accepts a snapshot row
  of the same length, or of length one (which it repeats), and raises otherwise. With
  no profile at all, line 78 raises IndexError when the snapshot has a typed row (the
  mask of line 77 is then an empty array of floats), and line 83 raises ValueError when
  it has none.
\<close>

text \<open>\<open>len(typed) > 0\<close>: some row of the snapshot has a positive id.\<close>

definition has_typed :: "matrix \<Rightarrow> bool" where
  "has_typed cls = (\<exists>c\<in>set cls. hd c > 0)"

definition order_append :: "matrix \<Rightarrow> matrix \<Rightarrow> matrix" where
  "order_append cls mat =
     (let typed = typed_of cls
      in if has_typed cls
         then filter (\<lambda>r. typed (hd r) \<noteq> None) mat @ filter (\<lambda>r. typed (hd r) = None) mat
         else mat)"

definition start_append :: "matrix \<Rightarrow> matrix \<Rightarrow> nat" where
  "start_append cls mat =
     (let typed = typed_of cls
      in if has_typed cls then length (filter (\<lambda>r. typed (hd r) \<noteq> None) mat) else 0)"

fun load_typed :: "matrix \<Rightarrow> (int \<rightharpoonup> nat) \<Rightarrow> matrix \<Rightarrow> error + matrix" where
  "load_typed cls typed [] = Inr []"
| "load_typed cls typed (r # rs) =
     (case typed (hd r) of
        None \<Rightarrow> (case load_typed cls typed rs of Inl e \<Rightarrow> Inl e | Inr rs' \<Rightarrow> Inr (r # rs'))
      | Some j \<Rightarrow>
          if length (cls ! j) = length r then
            (case load_typed cls typed rs of Inl e \<Rightarrow> Inl e | Inr rs' \<Rightarrow> Inr (cls ! j # rs'))
          else if length (cls ! j) = 1 then
            (case load_typed cls typed rs of
               Inl e \<Rightarrow> Inl e
             | Inr rs' \<Rightarrow> Inr (replicate (length r) (hd (cls ! j)) # rs'))
          else Inl ValueError)"

definition hierCC_append :: "matrix \<Rightarrow> matrix \<Rightarrow> error + matrix" where
  "hierCC_append cls mat0 =
     (if [] \<in> set cls \<or> [] \<in> set mat0 then Inl IndexError
      else
        let mat = order_append cls mat0;
            start = start_append cls mat0;
            n = length mat
        in if n = 0 then (if has_typed cls then Inl IndexError else Inl ValueError)
           else
             (case load_typed cls (typed_of cls) (init_res mat) of
                Inl e \<Rightarrow> Inl e
              | Inr res \<Rightarrow>
                  (case attach start (asyn_dist mat start) res of
                     Inl e \<Rightarrow> Inl e
                   | Inr res' \<Rightarrow> Inr (set_ids mat res'))))"

text \<open>
  The function \<open>hierCC\<close> itself: the profile table is loaded (line 58), an error of the
  loading ends the run, and the rows loaded go to the one kind of run or the other
  (line 67). \<open>old\<close> is the matrix of the snapshot named by \<open>--append\<close>, \<open>None\<close> without
  that option. The result is the matrix that lines 117 to 122 write out.
\<close>

definition hierCC ::
  "(string \<Rightarrow> int option) \<Rightarrow> (nat list list \<Rightarrow> merge_row list) \<Rightarrow> string option list list
     \<Rightarrow> matrix option \<Rightarrow> error + matrix" where
  "hierCC conv linkage tbl old =
     (case prepare_mat conv tbl of
        Inl e \<Rightarrow> Inl e
      | Inr mat \<Rightarrow>
          (case old of
             None \<Rightarrow> hierCC_full linkage mat
           | Some cls \<Rightarrow> hierCC_append cls mat))"

section \<open>Single linkage\<close>

text \<open>
  What the run needs of the library's single-linkage routine, for \<open>n\<close> observations
  with distance matrix \<open>dist\<close>. \<open>owner ! x\<close> is the node that holds leaf \<open>x\<close> so
  far (at first \<open>x\<close> itself). Each row \<open>(a, b, d)\<close> joins two different nodes that hold
  leaves, \<open>d\<close> is the distance of some leaf of \<open>a\<close> to some leaf of \<open>b\<close>, and no two
  leaves of different nodes are closer than \<open>d\<close>; the new node is numbered \<open>n_id\<close>.
  When the rows end, one node holds every leaf.
\<close>

definition join_nodes :: "nat \<Rightarrow> nat \<Rightarrow> nat \<Rightarrow> nat list \<Rightarrow> nat list" where
  "join_nodes a b n_id owner = map (\<lambda>c. if c = a \<or> c = b then n_id else c) owner"

fun single_linkage :: "nat list list \<Rightarrow> nat \<Rightarrow> nat list \<Rightarrow> merge_row list \<Rightarrow> bool" where
  "single_linkage dist n_id owner [] = (\<forall>x\<in>set owner. \<forall>y\<in>set owner. x = y)"
| "single_linkage dist n_id owner ((a, b, d) # cs) =
     (a \<noteq> b
      \<and> (\<exists>x\<in>set [0..<length owner]. \<exists>y\<in>set [0..<length owner].
            owner ! x = a \<and> owner ! y = b \<and> dist ! x ! y = d)
      \<and> (\<forall>x\<in>set [0..<length owner]. \<forall>y\<in>set [0..<length owner].
            owner ! x \<noteq> owner ! y \<longrightarrow> d \<le> dist ! x ! y)
      \<and> single_linkage dist (Suc n_id) (join_nodes a b n_id owner) cs)"

definition is_single_linkage :: "nat list list \<Rightarrow> merge_row list \<Rightarrow> bool" where
  "is_single_linkage dist slc = single_linkage dist (length dist) [0..<length dist] slc"

text \<open>
  Modelled from the spec: a routine of this kind, to run examples (the library's own is
  outside the sources). As the spec's LinkageEngine does, it merges again and again the
  two clusters at the least distance: \<open>fuel\<close> times, the nodes of the first pair of
  leaves at the least distance among the pairs in different nodes, the lower-numbered
  node first.
\<close>

definition closest_pair :: "nat list list \<Rightarrow> nat list \<Rightarrow> (nat \<times> nat) option" where
  "closest_pair dist owner =
     (case filter (\<lambda>(x, y). owner ! x \<noteq> owner ! y)
             (List.product [0..<length owner] [0..<length owner]) of
        [] \<Rightarrow> None
      | p # ps \<Rightarrow>
          Some (fold (\<lambda>(x, y) (u, v). if dist ! x ! y < dist ! u ! v then (x, y) else (u, v)) ps p))"

fun join_closest :: "nat list list \<Rightarrow> nat \<Rightarrow> nat \<Rightarrow> nat list \<Rightarrow> merge_row list" where
  "join_closest dist 0 n_id owner = []"
| "join_closest dist (Suc fuel) n_id owner =
     (case closest_pair dist owner of
        None \<Rightarrow> []
      | Some (x, y) \<Rightarrow>
          (let a = min (owner ! x) (owner ! y);
               b = max (owner ! x) (owner ! y)
           in (a, b, dist ! x ! y) # join_closest dist fuel (Suc n_id) (join_nodes a b n_id owner)))"

definition linkage_single :: "nat list list \<Rightarrow> merge_row list" where
  "linkage_single dist = join_closest dist (length dist - 1) (length dist) [0..<length dist]"

section \<open>Reading a code matrix\<close>

text \<open>The code of the profile in row \<open>i\<close> at threshold \<open>t\<close> (column \<open>HCt\<close> of the report).\<close>

definition code_at :: "matrix \<Rightarrow> nat \<Rightarrow> nat \<Rightarrow> int" where
  "code_at res i t = res ! i ! (t + 1)"

text \<open>All rows of a matrix have \<open>w\<close> columns, as the rows of a numpy array do.\<close>

definition rect :: "nat \<Rightarrow> 'a list list \<Rightarrow> bool" where
  "rect w m = (\<forall>r\<in>set m. length r = w)"

text \<open>
  The partitions of a code matrix with thresholds 0 to \<open>L\<close> are nested: rows that share
  their code at a threshold share it at every greater threshold.
\<close>

definition nested :: "nat \<Rightarrow> matrix \<Rightarrow> bool" where
  "nested L res =
     (\<forall>i<length res. \<forall>j<length res. \<forall>t1 t2.
        t1 < t2 \<and> t2 \<le> L \<and> code_at res i t1 = code_at res j t1 \<longrightarrow>
        code_at res i t2 = code_at res j t2)"

text \<open>Every entry of a matrix lies in a set of values.\<close>

definition codes_in :: "int set \<Rightarrow> matrix \<Rightarrow> bool" where
  "codes_in S res = (\<forall>r\<in>set res. set r \<subseteq> S)"

section \<open>Connection in the single-linkage sense\<close>

text \<open>
  Two profiles of a matrix are linked at threshold \<open>t\<close> when their allelic distance is at
  most \<open>t\<close>; they are connected in the single-linkage sense when a chain of links leads
  from one to the other (the reflexive transitive closure).
\<close>

definition linked :: "matrix \<Rightarrow> nat \<Rightarrow> (nat \<times> nat) set" where
  "linked mat t =
     {(i, j). i < length mat \<and> j < length mat \<and> allelic_distance (mat ! i) (mat ! j) \<le> t}"

text \<open>
  The same for the positions of a distance matrix, and the positions connected to a
  position.
\<close>

definition near :: "nat list list \<Rightarrow> nat \<Rightarrow> (nat \<times> nat) set" where
  "near dist t = {(x, y). x < length dist \<and> y < length dist \<and> dist ! x ! y \<le> t}"

definition component :: "nat list list \<Rightarrow> nat \<Rightarrow> nat \<Rightarrow> nat set" where
  "component dist t x = {y. y < length dist \<and> (x, y) \<in> (near dist t)\<^sup>*}"

section \<open>Invariants of the two loops\<close>

text \<open>The leaves held by the node that holds leaf \<open>x\<close>, and the least of their identifiers.\<close>

definition cluster :: "nat list \<Rightarrow> nat \<Rightarrow> nat set" where
  "cluster owner x = {y. y < length owner \<and> owner ! y = owner ! x}"

definition cmin :: "int list \<Rightarrow> nat list \<Rightarrow> nat \<Rightarrow> int" where
  "cmin ids owner x = Min ((!) ids ` cluster owner x)"

text \<open>
  The state of the encoding loop after some merge events, the last at distance \<open>h\<close>:
  \<open>owner\<close> tells the node of each leaf, \<open>n_id\<close> is the number of the next node.
\<close>

definition enc_inv ::
  "int list \<Rightarrow> nat list list \<Rightarrow> nat \<Rightarrow> nat \<Rightarrow> nat \<Rightarrow> nat list
     \<Rightarrow> int list option list \<Rightarrow> matrix \<Rightarrow> bool" where
  "enc_inv ids dist w n_id h owner descendents res =
     (length owner = length ids \<and> length res = length ids \<and> rect w res \<and> 0 < w
      \<and> length descendents = 2 * length ids - 1
      \<and> (\<forall>c\<in>set owner. c < n_id) \<and> n_id + card (set owner) = 2 * length ids
      \<and> (\<forall>x<length ids. \<exists>xs. descendents ! (owner ! x) = Some xs \<and> xs \<noteq> []
            \<and> set xs = (!) ids ` cluster owner x \<and> hd xs = cmin ids owner x)
      \<and> (\<forall>x<length ids. \<forall>j. h < j \<and> j < w \<longrightarrow> res ! x ! j = cmin ids owner x)
      \<and> (\<forall>x<length ids. \<forall>y<length ids. owner ! x \<noteq> owner ! y \<longrightarrow> h \<le> dist ! x ! y)
      \<and> (\<forall>x<length ids. \<forall>y<length ids. owner ! x = owner ! y \<longrightarrow> (x, y) \<in> (near dist h)\<^sup>*)
      \<and> (\<forall>x<length ids. \<forall>t<h. t + 1 < w \<longrightarrow>
            res ! x ! (t + 1) = Min ((!) ids ` component dist t x))
      \<and> (\<forall>x<length ids. res ! x ! 0 = ids ! x))"

text \<open>
  The state of the attachment loop of a run with \<open>--append\<close> before position \<open>k\<close>: the
  rows below \<open>k\<close> are nested, the rows from \<open>k\<close> on still hold their own identifier, and
  no such identifier is a code of a row below \<open>k\<close>.
\<close>

definition att_inv :: "nat \<Rightarrow> int list \<Rightarrow> nat \<Rightarrow> matrix \<Rightarrow> bool" where
  "att_inv L ids k res =
     (length res = length ids \<and> rect (L + 2) res
      \<and> (\<forall>i<k. \<forall>j<k. \<forall>t1 t2.
            i < length ids \<and> j < length ids \<and> t1 < t2 \<and> t2 \<le> L
            \<and> code_at res i t1 = code_at res j t1 \<longrightarrow>
            code_at res i t2 = code_at res j t2)
      \<and> (\<forall>p. k \<le> p \<and> p < length ids \<longrightarrow> res ! p = replicate (L + 2) (ids ! p))
      \<and> (\<forall>p. k \<le> p \<and> p < length ids \<longrightarrow>
            (\<forall>i<k. i < length ids \<longrightarrow> ids ! p \<notin> set (tl (res ! i)))))"

section \<open>The example of the spec\<close>

text \<open>The four profiles of the spec's example, with three loci.\<close>

definition ex_profiles :: matrix where
  "ex_profiles = [[1, 1, 1, 1], [2, 1, 1, 2], [3, 1, 2, 2], [4, 9, 9, 9]]"

text \<open>The code matrix of the example, as the snapshot of a later run.\<close>

definition ex_snapshot :: matrix where
  "ex_snapshot = [[1, 1, 1, 1, 1], [2, 2, 1, 1, 1], [3, 3, 1, 1, 1], [4, 4, 4, 4, 1]]"

section \<open>Slice assignment and the inner loop\<close>

lemma length_overwrite_from:
  "length src = length tgt \<Longrightarrow> length (overwrite_from k tgt src) = length tgt"
  by (simp add: overwrite_from_def)

lemma nth_overwrite_from:
  "length src = length tgt \<Longrightarrow> j < length tgt \<Longrightarrow>
   overwrite_from k tgt src ! j = (if j < k then tgt ! j else src ! j)"
  by (auto simp: overwrite_from_def nth_append min_def)

lemma overwrite_from_self: "overwrite_from k r r = r"
  by (simp add: overwrite_from_def)

lemma overwrite_from_twice:
  "length src = length tgt \<Longrightarrow> overwrite_from k (overwrite_from k tgt src) src = overwrite_from k tgt src"
  by (auto simp: overwrite_from_def)

lemma set_overwrite_from: "set (overwrite_from k tgt src) \<subseteq> set tgt \<union> set src"
  using set_take_subset [of k tgt] set_drop_subset [of k src]
  by (auto simp: overwrite_from_def)

lemma rect_update:
  "rect w m \<Longrightarrow> length r = w \<Longrightarrow> rect w (m[i := r])"
  by (auto simp: rect_def dest!: set_update_subset_insert [THEN subsetD])

lemma rect_nth: "rect w m \<Longrightarrow> i < length m \<Longrightarrow> length (m ! i) = w"
  by (simp add: rect_def)

lemma absorb_result:
  assumes "index min_id = Some a" and "a < length res"
    and "\<forall>tgt\<in>set tgts. \<exists>i<length res. index tgt = Some i" and "rect w res"
  shows "\<exists>res'. absorb index k min_id tgts res = Inr res' \<and> length res' = length res \<and> rect w res' \<and>
           (\<forall>j<length res. res' ! j =
              (if \<exists>tgt\<in>set tgts. index tgt = Some j
               then overwrite_from k (res ! j) (res ! a) else res ! j))"
  using assms
proof (induction tgts arbitrary: res)
  case Nil
  then show ?case by simp
next
  case (Cons tgt tgts)
  from Cons.prems obtain i where i: "index tgt = Some i" "i < length res" by auto
  define res1 where "res1 = res[i := overwrite_from k (res ! i) (res ! a)]"
  have step: "absorb index k min_id (tgt # tgts) res = absorb index k min_id tgts res1"
    using i Cons.prems(1) by (simp add: res1_def)
  have len1: "length res1 = length res" by (simp add: res1_def)
  have rows: "length (res ! a) = length (res ! i)"
    using Cons.prems(2,4) i by (simp add: rect_nth)
  have rect1: "rect w res1"
    unfolding res1_def using Cons.prems(4) i rows
    by (intro rect_update) (simp_all add: length_overwrite_from rect_nth)
  have anchor: "res1 ! a = res ! a"
    using i Cons.prems(2) by (cases "a = i") (simp_all add: res1_def overwrite_from_self)
  from Cons.IH [of res1] Cons.prems len1 rect1
  obtain res' where r: "absorb index k min_id tgts res1 = Inr res'" "length res' = length res1"
    "rect w res'"
    "\<forall>j<length res1. res' ! j =
        (if \<exists>tgt\<in>set tgts. index tgt = Some j
         then overwrite_from k (res1 ! j) (res1 ! a) else res1 ! j)"
    by auto
  have "res' ! j =
      (if \<exists>t\<in>set (tgt # tgts). index t = Some j
       then overwrite_from k (res ! j) (res ! a) else res ! j)" if j: "j < length res" for j
  proof (cases "j = i")
    case True
    then show ?thesis
      using r(4) j i rows len1 anchor
      by (auto simp: res1_def overwrite_from_twice)
  next
    case False
    then show ?thesis
      using r(4) j i len1 anchor by (auto simp: res1_def)
  qed
  with step r len1 show ?case by auto
qed


lemma merge_event_result:
  assumes "c0 < length descendents" "c1 < length descendents" "n_id < length descendents"
    and "descendents ! c0 = Some x0" "descendents ! c1 = Some x1" "x0 \<noteq> []" "x1 \<noteq> []"
    and "anchor = (if hd x0 \<le> hd x1 then x0 else x1)"
    and "absorbed = (if hd x0 \<le> hd x1 then x1 else x0)"
    and "index (min_list anchor) = Some a" "a < length res"
    and "\<forall>tgt\<in>set absorbed. \<exists>i<length res. index tgt = Some i" and "rect w res"
  shows "\<exists>res'. merge_event index n_id (c0, c1, d) (descendents, res) =
             Inr (descendents[n_id := Some (anchor @ absorbed)], res')
           \<and> length res' = length res \<and> rect w res' \<and>
           (\<forall>j<length res. res' ! j =
              (if \<exists>tgt\<in>set absorbed. index tgt = Some j
               then overwrite_from (d + 1) (res ! j) (res ! a) else res ! j))"
proof -
  from absorb_result [OF assms(10,11,12,13), where k = "d + 1"]
  obtain res' where r: "absorb index (d + 1) (min_list anchor) absorbed res = Inr res'"
    "length res' = length res" "rect w res'"
    "\<forall>j<length res. res' ! j =
        (if \<exists>tgt\<in>set absorbed. index tgt = Some j
         then overwrite_from (d + 1) (res ! j) (res ! a) else res ! j)"
    by blast
  have "merge_event index n_id (c0, c1, d) (descendents, res) =
      Inr (descendents[n_id := Some (anchor @ absorbed)], res')"
    using assms(1-9) r(1) by (simp add: merge_event_def Let_def)
  with r show ?thesis by blast
qed

text \<open>
  C4 (as amended). A merge event at distance \<open>d\<close> overwrites the code of every leaf of
  the absorbed side with the anchor leaf's code at every threshold from \<open>d\<close> on (the
  columns from \<open>d + 1\<close> on, column 0 holding the id), and leaves its codes at the
  thresholds below \<open>d\<close> as they were; the anchor leaf's row does not change.
\<close>

theorem merge_event_overwrites_from_its_distance:
  assumes "merge_event index n_id (c0, c1, d) (descendents, res) = Inr (descendents', res')"
    and "descendents ! c0 = Some x0" "descendents ! c1 = Some x1"
    and "anchor = (if hd x0 \<le> hd x1 then x0 else x1)"
    and "absorbed = (if hd x0 \<le> hd x1 then x1 else x0)"
    and "index (min_list anchor) = Some a" "a < length res"
    and "\<forall>tgt\<in>set absorbed. \<exists>i<length res. index tgt = Some i"
    and "rect w res" "t + 1 < w"
    and "tgt \<in> set absorbed" "index tgt = Some i"
  shows "code_at res' i t = (if d \<le> t then code_at res a t else code_at res i t)
         \<and> res' ! a = res ! a"
proof -
  from assms(1,2,3) have ok: "c0 < length descendents" "c1 < length descendents"
    "n_id < length descendents" "x0 \<noteq> []" "x1 \<noteq> []"
    by (auto simp: merge_event_def Let_def split: if_splits sum.splits)
  from merge_event_result [OF ok(1,2,3) assms(2,3) ok(4,5) assms(4,5,6,7,8,9), where d = d] assms(1)
  have rows: "\<forall>j<length res. res' ! j =
        (if \<exists>tgt\<in>set absorbed. index tgt = Some j
         then overwrite_from (d + 1) (res ! j) (res ! a) else res ! j)"
    by auto
  from assms(8,11,12) have i: "i < length res" by force
  have len: "length (res ! i) = w" "length (res ! a) = w"
    using assms(7,9) i by (simp_all add: rect_nth)
  from rows i assms(11,12) have "res' ! i = overwrite_from (d + 1) (res ! i) (res ! a)"
    by auto
  then have c: "code_at res' i t = (if d \<le> t then code_at res a t else code_at res i t)"
    using len assms(10) by (auto simp: code_at_def nth_overwrite_from)
  from rows assms(7) have "res' ! a = res ! a"
    by (auto simp: overwrite_from_self)
  with c show ?thesis by simp
qed

text \<open>
  In the example, the first merge event joins profiles 1 and 2 at distance 1; the code of
  profile 2 at threshold 1, which is not strictly greater than the distance, changes
  from 2 to 1.
\<close>

theorem first_merge_changes_threshold_of_its_distance:
  "merge_event (index_of (map hd ex_profiles)) 4 (0, 1, 1)
      (initial_descendents ex_profiles, init_res ex_profiles) =
     Inr ([Some [1], Some [2], Some [3], Some [4], Some [1, 2], None, None],
          [[1, 1, 1, 1, 1], [2, 2, 1, 1, 1], [3, 3, 3, 3, 3], [4, 4, 4, 4, 4]])
   \<and> code_at (init_res ex_profiles) 1 1 = 2
   \<and> code_at [[1, 1, 1, 1, 1], [2, 2, 1, 1, 1], [3, 3, 3, 3, 3], [4, 4, 4, 4, 4]] 1 1 = 1"
  by code_simp


theorem merge_event_overwrites_from_its_distance_witness:
  "(code_at [[1, 1, 1, 1, 1], [2, 2, 1, 1, 1], [3, 3, 3, 3, 3], [4, 4, 4, 4, 4]] 1 1 =
      code_at (init_res ex_profiles) 0 1)
   \<and> (code_at [[1, 1, 1, 1, 1], [2, 2, 1, 1, 1], [3, 3, 3, 3, 3], [4, 4, 4, 4, 4]] 1 0 =
      code_at (init_res ex_profiles) 1 0)"
proof -
  have e: "merge_event (index_of (map hd ex_profiles)) 4 (0, 1, 1)
      (initial_descendents ex_profiles, init_res ex_profiles) =
     Inr ([Some [1], Some [2], Some [3], Some [4], Some [1, 2], None, None],
          [[1, 1, 1, 1, 1], [2, 2, 1, 1, 1], [3, 3, 3, 3, 3], [4, 4, 4, 4, 4]])"
    by code_simp
  have x0: "initial_descendents ex_profiles ! 0 = Some [1]" by code_simp
  have x1: "initial_descendents ex_profiles ! 1 = Some [2]" by code_simp
  have an: "[1] = (if hd [1::int] \<le> hd [2::int] then [1] else [2::int])" by simp
  have ab: "[2] = (if hd [1::int] \<le> hd [2::int] then [2] else [1::int])" by simp
  have a: "index_of (map hd ex_profiles) (min_list [1]) = Some 0" by code_simp
  have i: "index_of (map hd ex_profiles) 2 = Some 1" by code_simp
  have r: "init_res ex_profiles =
      [[1, 1, 1, 1, 1], [2, 2, 2, 2, 2], [3, 3, 3, 3, 3], [4, 4, 4, 4, 4]]"
    by code_simp
  have l: "0 < length (init_res ex_profiles)" by (simp add: r)
  have al: "\<forall>tgt\<in>set [2]. \<exists>i<length (init_res ex_profiles).
      index_of (map hd ex_profiles) tgt = Some i"
    using i by (simp add: r)
  have w: "rect 5 (init_res ex_profiles)" by (simp add: r rect_def)
  have m: "(2::int) \<in> set [2]" by simp
  have "code_at [[1, 1, 1, 1, 1], [2, 2, 1, 1, 1], [3, 3, 3, 3, 3], [4, 4, 4, 4, 4]] 1 1 =
      code_at (init_res ex_profiles) 0 1"
    using merge_event_overwrites_from_its_distance [OF e x0 x1 an ab a l al w _ m i, of 1, THEN conjunct1]
    by simp
  moreover
  have "code_at [[1, 1, 1, 1, 1], [2, 2, 1, 1, 1], [3, 3, 3, 3, 3], [4, 4, 4, 4, 4]] 1 0 =
      code_at (init_res ex_profiles) 1 0"
    using merge_event_overwrites_from_its_distance [OF e x0 x1 an ab a l al w _ m i, of 0, THEN conjunct1]
    by simp
  ultimately show ?thesis by (rule conjI)
qed

section \<open>One step of the attachment pass\<close>

lemma argmin_less: "xs \<noteq> [] \<Longrightarrow> argmin xs < length xs"
  by (induction xs rule: argmin.induct) (auto simp: Let_def)

lemma argmin_least: "j < length xs \<Longrightarrow> xs ! argmin xs \<le> xs ! j"
proof (induction xs arbitrary: j rule: argmin.induct)
  case 1
  then show ?case by simp
next
  case (2 x)
  then show ?case by simp
next
  case (3 x y ys)
  show ?case
  proof (cases j)
    case 0
    then show ?thesis by (auto simp: Let_def)
  next
    case (Suc j')
    with 3 have "(y # ys) ! argmin (y # ys) \<le> (y # ys) ! j'" by simp
    with Suc show ?thesis by (auto simp: Let_def)
  qed
qed

text \<open>
  C5 (as amended). For the row at position \<open>k = id + start > 0\<close> the pass takes the
  first position \<open>i\<close> of the least distance \<open>m\<close> among the positions below \<open>k\<close>; the
  code of row \<open>k\<close> at a threshold \<open>t\<close> becomes the neighbour's exactly when the
  neighbour's code at threshold \<open>m\<close> is less than the row's and \<open>m \<le> t\<close>; no other row
  changes. At position 0 nothing changes.
\<close>

theorem attach_row_compares_at_its_distance:
  assumes "attach_row k d res = Inr res'" and "rect w res" and "t + 1 < w"
    and "i = argmin (take k d)" and "m = d ! i"
  shows "(k = 0 \<longrightarrow> res' = res)
       \<and> (0 < k \<longrightarrow>
            i < k \<and> (\<forall>j<k. j < length d \<longrightarrow> m \<le> d ! j)
            \<and> code_at res' k t =
                (if code_at res i m < code_at res k m \<and> m \<le> t
                 then code_at res i t else code_at res k t)
            \<and> (\<forall>j. j \<noteq> k \<longrightarrow> res' ! j = res ! j))"
proof (intro conjI impI)
  assume "k = 0"
  with assms(1) show "res' = res" by (simp add: attach_row_def)
next
  assume k: "0 < k"
  with assms(1) have ne: "take k d \<noteq> []" and kl: "k < length res"
    by (auto simp: attach_row_def Let_def split: if_splits)
  from argmin_less [OF ne] assms(4) have il: "i < length (take k d)" by simp
  then show ik: "i < k" by simp
  have mi: "m = take k d ! i" using il assms(5) by simp
  show "\<forall>j<k. j < length d \<longrightarrow> m \<le> d ! j"
  proof (intro allI impI)
    fix j assume "j < k" "j < length d"
    then have "j < length (take k d)" by simp
    from argmin_least [OF this] have "take k d ! i \<le> take k d ! j" by (simp add: assms(4))
    with mi \<open>j < k\<close> show "m \<le> d ! j" by simp
  qed
  have len: "length (res ! k) = w" "length (res ! i) = w"
    using assms(2) kl ik by (simp_all add: rect_nth)
  have r: "res' = (if code_at res i m < code_at res k m
                   then res[k := overwrite_from (m + 1) (res ! k) (res ! i)] else res)"
    using assms(1,4,5) k ne by (auto simp: attach_row_def Let_def code_at_def split: if_splits)
  show "code_at res' k t =
      (if code_at res i m < code_at res k m \<and> m \<le> t then code_at res i t else code_at res k t)"
    using r kl len assms(3) by (auto simp: code_at_def nth_overwrite_from)
  show "\<forall>j. j \<noteq> k \<longrightarrow> res' ! j = res ! j"
    using r by auto
qed

text \<open>
  Attaching profile 5, equal to profile 1, to the example's matrix: the least distance is
  0, and the code at threshold 0, which is outside the thresholds from 1 on, changes
  from 5 to 1. Attaching a profile 2 equal to profile 3 to the rows of profiles 1, 3 and
  4: the least distance is 0, the neighbour's code at threshold 1 is 1, less than 2, and
  yet nothing is overwritten, the neighbour's code at threshold 0 being 3.
\<close>

theorem attach_changes_threshold_of_its_distance:
  "attach_row 4 [0, 1, 2, 3, 0]
      [[1, 1, 1, 1, 1], [2, 2, 1, 1, 1], [3, 3, 1, 1, 1], [4, 4, 4, 4, 1], [5, 5, 5, 5, 5]] =
     Inr [[1, 1, 1, 1, 1], [2, 2, 1, 1, 1], [3, 3, 1, 1, 1], [4, 4, 4, 4, 1], [5, 1, 1, 1, 1]]
   \<and> [0, 1, 2, 3, 0] ! argmin (take 4 [0, 1, 2, 3, 0]) = (0::nat)
   \<and> code_at [[1, 1, 1, 1, 1], [2, 2, 1, 1, 1], [3, 3, 1, 1, 1], [4, 4, 4, 4, 1], [5, 5, 5, 5, 5]] 4 0 = 5
   \<and> code_at [[1, 1, 1, 1, 1], [2, 2, 1, 1, 1], [3, 3, 1, 1, 1], [4, 4, 4, 4, 1], [5, 1, 1, 1, 1]] 4 0 = 1
   \<and> attach_row 3 [2, 0, 3, 0]
      [[1, 1, 1, 1, 1], [3, 3, 1, 1, 1], [4, 4, 4, 4, 1], [2, 2, 2, 2, 2]] =
     Inr [[1, 1, 1, 1, 1], [3, 3, 1, 1, 1], [4, 4, 4, 4, 1], [2, 2, 2, 2, 2]]
   \<and> argmin (take 3 [2, 0, 3, 0]) = 1
   \<and> [2, 0, 3, 0] ! argmin (take 3 [2, 0, 3, 0]) = (0::nat)
   \<and> code_at [[1, 1, 1, 1, 1], [3, 3, 1, 1, 1], [4, 4, 4, 4, 1], [2, 2, 2, 2, 2]] 1 1 <
       code_at [[1, 1, 1, 1, 1], [3, 3, 1, 1, 1], [4, 4, 4, 4, 1], [2, 2, 2, 2, 2]] 3 1"
  by code_simp

theorem attach_row_compares_at_its_distance_witness:
  "code_at [[1, 1, 1, 1, 1], [2, 2, 1, 1, 1], [3, 3, 1, 1, 1], [4, 4, 4, 4, 1], [5, 1, 1, 1, 1]] 4 0 =
     code_at [[1, 1, 1, 1, 1], [2, 2, 1, 1, 1], [3, 3, 1, 1, 1], [4, 4, 4, 4, 1], [5, 5, 5, 5, 5]] 0 0"
proof -
  have e: "attach_row 4 [0, 1, 2, 3, 0]
      [[1, 1, 1, 1, 1], [2, 2, 1, 1, 1], [3, 3, 1, 1, 1], [4, 4, 4, 4, 1], [5, 5, 5, 5, 5]] =
     Inr [[1, 1, 1, 1, 1], [2, 2, 1, 1, 1], [3, 3, 1, 1, 1], [4, 4, 4, 4, 1], [5, 1, 1, 1, 1]]"
    by code_simp
  have w: "rect 5 [[1, 1, 1, 1, 1], [2, 2, 1, 1, 1], [3, 3, 1, 1, 1], [4, 4, 4, 4, 1], [5, 5, 5, 5, 5::int]]"
    by (simp add: rect_def)
  have t: "(0::nat) + 1 < 5" by simp
  have i: "0 = argmin (take 4 [0, 1, 2, 3, 0::nat])" by code_simp
  have m: "(0::nat) = [0, 1, 2, 3, 0] ! 0" by simp
  have c: "code_at [[1, 1, 1, 1, 1], [2, 2, 1, 1, 1], [3, 3, 1, 1, 1], [4, 4, 4, 4, 1], [5, 5, 5, 5, 5]] 0 0
      < code_at [[1, 1, 1, 1, 1], [2, 2, 1, 1, 1], [3, 3, 1, 1, 1], [4, 4, 4, 4, 1], [5, 5, 5, 5, 5]] 4 0"
    by (simp add: code_at_def)
  from attach_row_compares_at_its_distance [OF e w t i m, THEN conjunct2] c
  show ?thesis by simp
qed

section \<open>The dictionaries\<close>

lemma index_of_Some: "index_of ids s = Some i \<Longrightarrow> i < length ids \<and> ids ! i = s"
proof -
  assume "index_of ids s = Some i"
  then have "(s, i) \<in> set (zip ids [0..<length ids])"
    by (auto simp: index_of_def dest: map_of_SomeD)
  then show ?thesis by (auto simp: in_set_zip)
qed

lemma index_of_distinct:
  "distinct ids \<Longrightarrow> i < length ids \<Longrightarrow> index_of ids (ids ! i) = Some i"
proof -
  assume d: "distinct ids" and i: "i < length ids"
  have "(ids ! i, i) \<in> set (rev (zip ids [0..<length ids]))"
    using i by (auto simp: in_set_zip intro!: exI [of _ i])
  moreover have "distinct (map fst (rev (zip ids [0..<length ids])))"
    using d by (simp add: rev_map [symmetric])
  ultimately show ?thesis
    unfolding index_of_def by (rule map_of_is_SomeI [rotated])
qed

lemma typed_of_Some:
  "typed_of cls c = Some j \<Longrightarrow> j < length cls \<and> hd (cls ! j) = c \<and> 0 < c"
proof -
  assume "typed_of cls c = Some j"
  then have "(c, j) \<in> set (filter (\<lambda>(c, i). c > 0) (zip (map hd cls) [0..<length cls]))"
    by (auto simp: typed_of_def dest: map_of_SomeD)
  then show ?thesis by (auto simp: in_set_zip)
qed

lemma typed_of_distinct:
  assumes "distinct (map hd cls)" and "j < length cls" and "0 < hd (cls ! j)"
  shows "typed_of cls (hd (cls ! j)) = Some j"
proof -
  let ?xs = "filter (\<lambda>(c, i). c > 0) (zip (map hd cls) [0..<length cls])"
  have "(hd (cls ! j), j) \<in> set (rev ?xs)"
    using assms(2,3) by (auto simp: in_set_zip intro!: exI [of _ j])
  moreover have "distinct (map fst (zip (map hd cls) [0..<length cls]))"
    using assms(1) by simp
  then have "distinct (map fst ?xs)"
    by (rule distinct_map_filter)
  then have "distinct (map fst (rev ?xs))"
    by (simp add: rev_map [symmetric])
  ultimately show ?thesis
    unfolding typed_of_def by (rule map_of_is_SomeI [rotated])
qed

lemma typed_of_has_typed: "typed_of cls c = Some j \<Longrightarrow> has_typed cls"
  by (drule typed_of_Some) (auto simp: has_typed_def)

section \<open>Every code is an identifier of the input\<close>

lemma codes_in_update:
  "codes_in S res \<Longrightarrow> set r \<subseteq> S \<Longrightarrow> codes_in S (res[i := r])"
  by (auto simp: codes_in_def dest!: set_update_subset_insert [THEN subsetD])

lemma codes_in_nth: "codes_in S res \<Longrightarrow> i < length res \<Longrightarrow> set (res ! i) \<subseteq> S"
  by (simp add: codes_in_def)

lemma codes_in_overwrite:
  assumes "codes_in S res" and "i < length res" and "a < length res"
  shows "codes_in S (res[i := overwrite_from k (res ! i) (res ! a)])"
proof (rule codes_in_update [OF assms(1)])
  show "set (overwrite_from k (res ! i) (res ! a)) \<subseteq> S"
    using set_overwrite_from [of k "res ! i" "res ! a"]
      codes_in_nth [OF assms(1,2)] codes_in_nth [OF assms(1,3)]
    by blast
qed

lemma absorb_codes:
  assumes "absorb index k min_id tgts res = Inr res'"
    and "\<forall>s i. index s = Some i \<longrightarrow> i < length res" and "codes_in S res"
  shows "codes_in S res' \<and> length res' = length res"
  using assms
proof (induction tgts arbitrary: res)
  case Nil
  then show ?case by simp
next
  case (Cons tgt tgts)
  from Cons.prems(1) obtain i a where ia: "index tgt = Some i" "index min_id = Some a"
    by (auto split: option.splits)
  define res1 where "res1 = res[i := overwrite_from k (res ! i) (res ! a)]"
  from ia Cons.prems(2) have lt: "i < length res" "a < length res" by auto
  have "absorb index k min_id tgts res1 = Inr res'"
    using Cons.prems(1) ia by (simp add: res1_def)
  moreover have "\<forall>s i. index s = Some i \<longrightarrow> i < length res1"
    using Cons.prems(2) by (simp add: res1_def)
  moreover have "codes_in S res1"
    unfolding res1_def using Cons.prems(3) lt by (rule codes_in_overwrite)
  ultimately have "codes_in S res' \<and> length res' = length res1"
    by (rule Cons.IH)
  then show ?case by (simp add: res1_def)
qed

lemma merge_event_codes:
  assumes "merge_event index n_id c (descendents, res) = Inr (descendents', res')"
    and "\<forall>s i. index s = Some i \<longrightarrow> i < length res" and "codes_in S res"
  shows "codes_in S res' \<and> length res' = length res"
proof -
  obtain c0 c1 c2 where c: "c = (c0, c1, c2)" by (cases c) auto
  from assms(1) obtain mn tgts where "absorb index (c2 + 1) mn tgts res = Inr res'"
    unfolding c merge_event_def
    by (auto simp: Let_def split: if_splits option.splits sum.splits)
  from absorb_codes [OF this assms(2,3)] show ?thesis .
qed

lemma encode_codes:
  assumes "encode index n_id slc (descendents, res) = Inr (descendents', res')"
    and "\<forall>s i. index s = Some i \<longrightarrow> i < length res" and "codes_in S res"
  shows "codes_in S res' \<and> length res' = length res"
  using assms
proof (induction slc arbitrary: n_id descendents res)
  case Nil
  then show ?case by simp
next
  case (Cons c slc)
  from Cons.prems(1) obtain ds1 res1 where
    m: "merge_event index n_id c (descendents, res) = Inr (ds1, res1)"
    and e: "encode index (Suc n_id) slc (ds1, res1) = Inr (descendents', res')"
    by (auto split: sum.splits)
  from merge_event_codes [OF m Cons.prems(2,3)]
  have 1: "codes_in S res1" "length res1 = length res" by simp_all
  with Cons.prems(2) have "\<forall>s i. index s = Some i \<longrightarrow> i < length res1" by simp
  from Cons.IH [OF e this 1(1)] 1(2) show ?case by simp
qed

lemma attach_row_codes:
  assumes "attach_row k d res = Inr res'" and "codes_in S res"
  shows "codes_in S res' \<and> length res' = length res"
proof (cases "res' = res")
  case True
  with assms show ?thesis by simp
next
  case False
  with assms(1) have k: "0 < k" "take k d \<noteq> []" "k < length res"
    and r: "res' = res[k := overwrite_from (d ! argmin (take k d) + 1) (res ! k)
                              (res ! argmin (take k d))]"
    by (auto simp: attach_row_def Let_def split: if_splits)
  from argmin_less [OF k(2)] k(3) have "argmin (take k d) < length res" by simp
  from codes_in_overwrite [OF assms(2) k(3) this] r show ?thesis by simp
qed

lemma attach_codes:
  assumes "attach k ds res = Inr res'" and "codes_in S res"
  shows "codes_in S res' \<and> length res' = length res"
  using assms
proof (induction ds arbitrary: k res)
  case Nil
  then show ?case by simp
next
  case (Cons d ds)
  show ?case
  proof (cases "k \<ge> length res")
    case True
    with Cons.prems show ?thesis by simp
  next
    case False
    with Cons.prems(1) obtain res1 where
      a: "attach_row k d res = Inr res1" and r: "attach (Suc k) ds res1 = Inr res'"
      by (auto split: sum.splits)
    from attach_row_codes [OF a Cons.prems(2)]
    have 1: "codes_in S res1" "length res1 = length res" by simp_all
    from Cons.IH [OF r 1(1)] 1(2) show ?thesis by simp
  qed
qed

lemma init_res_codes:
  "\<forall>r\<in>set mat. 0 \<le> hd r \<Longrightarrow> codes_in (hd ` set mat) (init_res mat)"
  by (auto simp: codes_in_def init_res_def Let_def)

lemma set_ids_codes:
  assumes "codes_in S res" and "hd ` set mat \<subseteq> S"
  shows "codes_in S (set_ids mat res)"
  unfolding codes_in_def set_ids_def
proof
  fix row assume "row \<in> set (map (\<lambda>(m, r). hd m # tl r) (zip mat res))"
  then obtain m r where mr: "(m, r) \<in> set (zip mat res)" "row = hd m # tl r" by auto
  then have "m \<in> set mat" "r \<in> set res" by (auto dest: set_zip_leftD set_zip_rightD)
  moreover have "set (tl r) \<subseteq> set r" by (cases r) auto
  ultimately show "set row \<subseteq> S" using assms mr(2) by (auto simp: codes_in_def)
qed

lemma length_init_res: "length (init_res mat) = length mat"
  by (simp add: init_res_def Let_def)

text \<open>
  C10. In a run without \<open>--append\<close> on profiles with positive identifiers, every entry
  of the matrix returned is the identifier of a profile of the input, whatever
  the library's routine returns.
\<close>

theorem full_run_codes_are_input_ids:
  assumes "hierCC_full linkage mat0 = Inr res" and "\<forall>r\<in>set mat0. 0 < hd r"
  shows "\<forall>row\<in>set res. \<forall>v\<in>set row. \<exists>p\<in>set mat0. v = hd p"
proof -
  define mat where "mat = order_full mat0"
  have sm: "set mat = set mat0" by (simp add: mat_def order_full_def)
  from assms(1) obtain ds res1 res2 where
    e: "encode_full linkage mat = Inr (ds, res1)"
    and a: "attach 0 (asyn_dist mat 0) res1 = Inr res2"
    and r: "res = set_ids mat res2"
    by (auto simp: hierCC_full_def Let_def mat_def split: if_splits sum.splits)
  have 0: "codes_in (hd ` set mat) (init_res mat)"
    using assms(2) sm by (intro init_res_codes) auto
  have i: "\<forall>s i. index_of (map hd mat) s = Some i \<longrightarrow> i < length (init_res mat)"
    by (auto simp: length_init_res dest: index_of_Some)
  from encode_codes [OF e [unfolded encode_full_def] i 0]
  have "codes_in (hd ` set mat) res1" by simp
  from attach_codes [OF a this] have "codes_in (hd ` set mat) res2" by simp
  then have "codes_in (hd ` set mat) res"
    unfolding r by (rule set_ids_codes) simp
  then show ?thesis by (auto simp: codes_in_def sm)
qed

theorem full_run_codes_are_input_ids_witness:
  "set (concat [[1, 1, 1, 1, 1], [2, 2, 1, 1, 1], [3, 3, 1, 1, 1], [4, 4, 4, 4, 1]])
     \<subseteq> hd ` set ex_profiles"
proof -
  have r: "hierCC_full linkage_single ex_profiles =
      Inr [[1, 1, 1, 1, 1], [2, 2, 1, 1, 1], [3, 3, 1, 1, 1], [4, 4, 4, 4, 1]]"
    by code_simp
  have p: "\<forall>r\<in>set ex_profiles. 0 < hd r" by (simp add: ex_profiles_def)
  from full_run_codes_are_input_ids [OF r p] show ?thesis by fastforce
qed

section \<open>Rows of typed profiles in a run with \<open>--append\<close>\<close>

lemma load_typed_result:
  assumes "load_typed cls typed rows = Inr res"
  shows "length res = length rows \<and>
    (\<forall>i<length rows. case typed (hd (rows ! i)) of
        None \<Rightarrow> res ! i = rows ! i
      | Some j \<Rightarrow>
          (length (cls ! j) = length (rows ! i) \<and> res ! i = cls ! j)
          \<or> (length (cls ! j) = 1 \<and> res ! i = replicate (length (rows ! i)) (hd (cls ! j))))"
  using assms
proof (induction rows arbitrary: res)
  case Nil
  then show ?case by simp
next
  case (Cons r rows)
  from Cons.prems obtain r' res1 where s: "res = r' # res1"
    "load_typed cls typed rows = Inr res1"
    and h: "case typed (hd r) of
        None \<Rightarrow> r' = r
      | Some j \<Rightarrow>
          (length (cls ! j) = length r \<and> r' = cls ! j)
          \<or> (length (cls ! j) = 1 \<and> r' = replicate (length r) (hd (cls ! j)))"
    by (auto split: option.splits sum.splits if_splits)
  from Cons.IH [OF s(2)] have ih: "length res1 = length rows"
    "\<forall>i<length rows. case typed (hd (rows ! i)) of
        None \<Rightarrow> res1 ! i = rows ! i
      | Some j \<Rightarrow>
          (length (cls ! j) = length (rows ! i) \<and> res1 ! i = cls ! j)
          \<or> (length (cls ! j) = 1 \<and> res1 ! i = replicate (length (rows ! i)) (hd (cls ! j)))"
    by simp_all
  show ?case
  proof (intro conjI allI impI)
    show "length res = length (r # rows)" using s ih by simp
  next
    fix i assume "i < length (r # rows)"
    then show "case typed (hd ((r # rows) ! i)) of
        None \<Rightarrow> res ! i = (r # rows) ! i
      | Some j \<Rightarrow>
          (length (cls ! j) = length ((r # rows) ! i) \<and> res ! i = cls ! j)
          \<or> (length (cls ! j) = 1 \<and>
              res ! i = replicate (length ((r # rows) ! i)) (hd (cls ! j)))"
      using h ih(2) s(1) by (cases i) (auto split: option.splits)
  qed
qed

lemma attach_row_result:
  assumes "attach_row k d res = Inr res'"
  shows "res' = res \<or>
    (0 < k \<and> k < length res \<and> take k d \<noteq> [] \<and>
     res' = res[k := overwrite_from (d ! argmin (take k d) + 1) (res ! k)
                        (res ! argmin (take k d))])"
  using assms by (auto simp: attach_row_def Let_def split: if_splits)

lemma attach_below:
  assumes "attach k ds res = Inr res'"
  shows "length res' = length res \<and> (\<forall>j<k. res' ! j = res ! j)"
  using assms
proof (induction ds arbitrary: k res)
  case Nil
  then show ?case by simp
next
  case (Cons d ds)
  show ?case
  proof (cases "k \<ge> length res")
    case True
    with Cons.prems show ?thesis by simp
  next
    case False
    with Cons.prems obtain res1 where
      a: "attach_row k d res = Inr res1" and r: "attach (Suc k) ds res1 = Inr res'"
      by (auto split: sum.splits)
    from attach_row_result [OF a]
    have 1: "length res1 = length res" "\<forall>j<k. res1 ! j = res ! j" by auto
    from Cons.IH [OF r] 1 show ?thesis by simp
  qed
qed

lemma nth_init_res:
  "i < length mat \<Longrightarrow>
   hd (init_res mat ! i) = hd (mat ! i) \<and> length (init_res mat ! i) = length (mat ! i) + 1"
  by (simp add: init_res_def Let_def)

lemma length_order_append: "length (order_append cls mat0) = length mat0"
  using sum_length_filter_compl [of "\<lambda>r. typed_of cls (hd r) \<noteq> None" mat0]
  by (simp add: order_append_def Let_def)

lemma typed_below_start:
  assumes "i < length mat0" and "typed_of cls (hd (order_append cls mat0 ! i)) = Some j"
  shows "i < start_append cls mat0"
proof (rule ccontr)
  assume n: "\<not> i < start_append cls mat0"
  let ?P = "\<lambda>r. typed_of cls (hd r) \<noteq> None"
  from assms(2) have ht: "has_typed cls" by (rule typed_of_has_typed)
  then have o: "order_append cls mat0 = filter ?P mat0 @ filter (\<lambda>r. \<not> ?P r) mat0"
    and s: "start_append cls mat0 = length (filter ?P mat0)"
    by (simp_all add: order_append_def start_append_def Let_def)
  from n s have ge: "length (filter ?P mat0) \<le> i" by simp
  have "i - length (filter ?P mat0) < length (filter (\<lambda>r. \<not> ?P r) mat0)"
    using assms(1) ge sum_length_filter_compl [of ?P mat0] by linarith
  then have "filter (\<lambda>r. \<not> ?P r) mat0 ! (i - length (filter ?P mat0))
      \<in> set (filter (\<lambda>r. \<not> ?P r) mat0)"
    by (rule nth_mem)
  moreover have "order_append cls mat0 ! i =
      filter (\<lambda>r. \<not> ?P r) mat0 ! (i - length (filter ?P mat0))"
    using ge by (simp add: o nth_append)
  ultimately show False using assms(2) by simp
qed

lemma set_ids_nth:
  "length res = length mat \<Longrightarrow> i < length mat \<Longrightarrow>
   set_ids mat res ! i = hd (mat ! i) # tl (res ! i)"
  by (simp add: set_ids_def)

lemma append_run_rows:
  assumes "hierCC_append cls mat0 = Inr res"
  shows "length res = length mat0" and "[] \<notin> set cls"
    and "i < length mat0 \<Longrightarrow> hd (res ! i) = hd (order_append cls mat0 ! i)"
    and "i < length mat0 \<Longrightarrow> typed_of cls (hd (order_append cls mat0 ! i)) = Some j \<Longrightarrow>
         (length (cls ! j) = length (order_append cls mat0 ! i) + 1 \<and> res ! i = cls ! j)
         \<or> (length (cls ! j) = 1 \<and>
             res ! i = replicate (length (order_append cls mat0 ! i) + 1) (hd (cls ! j)))"
proof -
  define mat where "mat = order_append cls mat0"
  have lm: "length mat = length mat0" by (simp add: mat_def length_order_append)
  from assms obtain res1 res2 where
    ne: "[] \<notin> set cls"
    and l: "load_typed cls (typed_of cls) (init_res mat) = Inr res1"
    and a: "attach (start_append cls mat0) (asyn_dist mat (start_append cls mat0)) res1 = Inr res2"
    and r: "res = set_ids mat res2"
    by (auto simp: hierCC_append_def Let_def mat_def split: if_splits sum.splits)
  show "[] \<notin> set cls" by (rule ne)
  from load_typed_result [OF l] have l1: "length res1 = length mat"
    and rows: "\<And>i. i < length mat \<Longrightarrow>
      (case typed_of cls (hd (init_res mat ! i)) of
        None \<Rightarrow> res1 ! i = init_res mat ! i
      | Some j \<Rightarrow>
          (length (cls ! j) = length (init_res mat ! i) \<and> res1 ! i = cls ! j)
          \<or> (length (cls ! j) = 1 \<and>
              res1 ! i = replicate (length (init_res mat ! i)) (hd (cls ! j))))"
    by (simp_all add: length_init_res)
  from attach_below [OF a] have l2: "length res2 = length mat"
    and below: "\<And>j. j < start_append cls mat0 \<Longrightarrow> res2 ! j = res1 ! j"
    using l1 by simp_all
  show "length res = length mat0" using r l2 lm by (simp add: set_ids_def)
  show "hd (res ! i) = hd (order_append cls mat0 ! i)" if "i < length mat0"
    using that r l2 lm by (simp add: set_ids_nth mat_def)
  show "(length (cls ! j) = length (order_append cls mat0 ! i) + 1 \<and> res ! i = cls ! j)
         \<or> (length (cls ! j) = 1 \<and>
             res ! i = replicate (length (order_append cls mat0 ! i) + 1) (hd (cls ! j)))"
    if i: "i < length mat0" and t: "typed_of cls (hd (order_append cls mat0 ! i)) = Some j"
  proof -
    from typed_below_start [OF i t] have "res2 ! i = res1 ! i" by (rule below)
    then have ri: "res ! i = hd (mat ! i) # tl (res1 ! i)"
      using r l2 lm i by (simp add: set_ids_nth)
    from typed_of_Some [OF t] have j: "j < length cls" "hd (cls ! j) = hd (mat ! i)"
      by (simp_all add: mat_def)
    with ne have cj: "cls ! j \<noteq> []" by (metis nth_mem)
    from rows [of i] i lm t nth_init_res [of i mat]
    have "(length (cls ! j) = length (mat ! i) + 1 \<and> res1 ! i = cls ! j)
          \<or> (length (cls ! j) = 1 \<and> res1 ! i = replicate (length (mat ! i) + 1) (hd (cls ! j)))"
      by (simp add: mat_def)
    then show ?thesis
    proof
      assume c: "length (cls ! j) = length (mat ! i) + 1 \<and> res1 ! i = cls ! j"
      have "hd (mat ! i) # tl (cls ! j) = cls ! j"
        using cj j(2) by (metis hd_Cons_tl)
      with ri c show ?thesis by (simp add: mat_def)
    next
      assume "length (cls ! j) = 1 \<and> res1 ! i = replicate (length (mat ! i) + 1) (hd (cls ! j))"
      with ri j show ?thesis by (simp add: mat_def)
    qed
  qed
qed

text \<open>
  C6. In a run with \<open>--append\<close>, the row returned for a profile whose (positive)
  identifier is that of a row of the snapshot is that row of the snapshot, for a
  snapshot with distinct identifiers whose row holds at least one code.
\<close>

theorem typed_row_is_snapshot_row:
  assumes "hierCC_append cls mat0 = Inr res" and "r \<in> set res"
    and "j < length cls" and "hd (cls ! j) = hd r" and "0 < hd r"
    and "distinct (map hd cls)" and "length (cls ! j) \<noteq> 1"
  shows "r = cls ! j"
proof -
  from assms(2) obtain i where i: "i < length res" "r = res ! i"
    by (auto simp: in_set_conv_nth)
  from append_run_rows(1) [OF assms(1)] i have il: "i < length mat0" by simp
  from append_run_rows(3) [OF assms(1) il] i
  have "hd (order_append cls mat0 ! i) = hd (cls ! j)" by (simp add: assms(4))
  moreover from typed_of_distinct [OF assms(6,3)] assms(4,5)
  have "typed_of cls (hd (cls ! j)) = Some j" by simp
  ultimately have "typed_of cls (hd (order_append cls mat0 ! i)) = Some j" by simp
  from append_run_rows(4) [OF assms(1) il this] assms(7) i show ?thesis by simp
qed

theorem typed_row_is_snapshot_row_witness:
  "[2, 2, 1, 1, 1] = ex_snapshot ! 1"
proof -
  have r: "hierCC_append ex_snapshot (ex_profiles @ [[5, 1, 1, 1]]) =
      Inr [[1, 1, 1, 1, 1], [2, 2, 1, 1, 1], [3, 3, 1, 1, 1], [4, 4, 4, 4, 1], [5, 1, 1, 1, 1]]"
    by code_simp
  have m: "[2, 2, 1, 1, 1] \<in>
      set [[1, 1, 1, 1, 1], [2, 2, 1, 1, 1], [3, 3, 1, 1, 1], [4, 4, 4, 4, 1], [5, 1, 1, 1, 1::int]]"
    by simp
  have j: "1 < length ex_snapshot" by (simp add: ex_snapshot_def)
  have h: "hd (ex_snapshot ! 1) = hd [2, 2, 1, 1, 1]" by (simp add: ex_snapshot_def)
  have p: "0 < hd [2, 2, 1, 1, 1::int]" by simp
  have d: "distinct (map hd ex_snapshot)" by (simp add: ex_snapshot_def)
  have l: "length (ex_snapshot ! 1) \<noteq> 1" by (simp add: ex_snapshot_def)
  from typed_row_is_snapshot_row [OF r m j h p d l] show ?thesis .
qed

lemma map_filter_hd_cong:
  assumes "map hd xs = map hd ys" and "map f xs = map f ys"
  shows "map f (filter (\<lambda>r. Q (hd r)) xs) = map f (filter (\<lambda>r. Q (hd r)) ys)"
  using assms
proof (induction xs arbitrary: ys)
  case Nil
  then show ?case by simp
next
  case (Cons x xs)
  then obtain y ys' where "ys = y # ys'" by (cases ys) auto
  with Cons show ?case by auto
qed

lemma order_append_cong:
  assumes "map hd mat0 = map hd mat0'" and "map f mat0 = map f mat0'"
  shows "map f (order_append cls mat0) = map f (order_append cls mat0')"
  using map_filter_hd_cong [OF assms, of "\<lambda>h. typed_of cls h \<noteq> None"]
    map_filter_hd_cong [OF assms, of "\<lambda>h. typed_of cls h = None"] assms(2)
  by (simp add: order_append_def Let_def)

text \<open>
  C9. In a run with \<open>--append\<close>, the row returned for a profile whose identifier is
  typed in the snapshot holds values of its snapshot row only, and is the same
  for any other allele calls in the profile file (the identifiers and the number of
  columns being the same).
\<close>

theorem typed_row_ignores_alleles:
  assumes "hierCC_append cls mat0 = Inr res" and "hierCC_append cls mat0' = Inr res'"
    and "map hd mat0 = map hd mat0'" and "map length mat0 = map length mat0'"
    and "i < length res" and "typed_of cls (hd (res ! i)) = Some j"
  shows "res ! i = res' ! i \<and> set (res ! i) \<subseteq> set (cls ! j)"
proof -
  let ?m = "order_append cls mat0" and ?m' = "order_append cls mat0'"
  from append_run_rows(1) [OF assms(1)] assms(5) have il: "i < length mat0" by simp
  from assms(3) have "length mat0 = length mat0'" by (rule map_eq_imp_length_eq)
  with il have il': "i < length mat0'" by simp
  have "map hd ?m ! i = map hd ?m' ! i"
    using order_append_cong [OF assms(3,3)] by simp
  then have hd_eq: "hd (?m ! i) = hd (?m' ! i)"
    using il il' by (simp add: length_order_append)
  have "map length ?m ! i = map length ?m' ! i"
    using order_append_cong [OF assms(3,4)] by simp
  then have len_eq: "length (?m ! i) = length (?m' ! i)"
    using il il' by (simp add: length_order_append)
  from append_run_rows(3) [OF assms(1) il] assms(6)
  have t: "typed_of cls (hd (?m ! i)) = Some j" by simp
  with hd_eq have t': "typed_of cls (hd (?m' ! i)) = Some j" by simp
  from typed_of_Some [OF t] append_run_rows(2) [OF assms(1)]
  have "cls ! j \<noteq> []" by (metis nth_mem)
  then have "hd (cls ! j) \<in> set (cls ! j)" by simp
  moreover have "length (cls ! j) = 1 \<Longrightarrow> cls ! j = [hd (cls ! j)]"
    by (cases "cls ! j") auto
  ultimately show ?thesis
    using append_run_rows(4) [OF assms(1) il t] append_run_rows(4) [OF assms(2) il' t'] len_eq
    by auto
qed

theorem typed_row_ignores_alleles_witness:
  "[[1, 1, 1, 1, 1], [2, 2, 1, 1, 1], [3, 3, 1, 1, 1], [4, 4, 4, 4, 1], [5, 1, 1, 1, 1]] ! 0 =
   [[1, 1, 1, 1, 1], [2, 2, 1, 1, 1], [3, 3, 1, 1, 1], [4, 4, 4, 4, 1], [5, 5, 1, 1, 1::int]] ! 0"
proof -
  have r: "hierCC_append ex_snapshot (ex_profiles @ [[5, 1, 1, 1]]) =
      Inr [[1, 1, 1, 1, 1], [2, 2, 1, 1, 1], [3, 3, 1, 1, 1], [4, 4, 4, 4, 1], [5, 1, 1, 1, 1]]"
    by code_simp
  have r': "hierCC_append ex_snapshot
        [[1, 7, 7, 7], [2, 1, 1, 2], [3, 1, 2, 2], [4, 9, 9, 9], [5, 1, 1, 1]] =
      Inr [[1, 1, 1, 1, 1], [2, 2, 1, 1, 1], [3, 3, 1, 1, 1], [4, 4, 4, 4, 1], [5, 5, 1, 1, 1]]"
    by code_simp
  have h: "map hd (ex_profiles @ [[5, 1, 1, 1]]) =
      map hd [[1, 7, 7, 7], [2, 1, 1, 2], [3, 1, 2, 2], [4, 9, 9, 9], [5, 1, 1, 1::int]]"
    by (simp add: ex_profiles_def)
  have l: "map length (ex_profiles @ [[5, 1, 1, 1]]) =
      map length [[1, 7, 7, 7], [2, 1, 1, 2], [3, 1, 2, 2], [4, 9, 9, 9], [5, 1, 1, 1::int]]"
    by (simp add: ex_profiles_def)
  have i: "0 < length [[1, 1, 1, 1, 1], [2, 2, 1, 1, 1], [3, 3, 1, 1, 1], [4, 4, 4, 4, 1],
      [5, 1, 1, 1, 1::int]]"
    by simp
  have t: "typed_of ex_snapshot
      (hd ([[1, 1, 1, 1, 1], [2, 2, 1, 1, 1], [3, 3, 1, 1, 1], [4, 4, 4, 4, 1], [5, 1, 1, 1, 1]] ! 0)) =
      Some 0"
    by code_simp
  from typed_row_ignores_alleles [OF r r' h l i t, THEN conjunct1] show ?thesis .
qed

section \<open>Connection\<close>

lemma near_mono: "s \<le> t \<Longrightarrow> near dist s \<subseteq> near dist t"
  by (auto simp: near_def)

lemma connected_mono: "s \<le> t \<Longrightarrow> (x, y) \<in> (near dist s)\<^sup>* \<Longrightarrow> (x, y) \<in> (near dist t)\<^sup>*"
  using rtrancl_mono [OF near_mono] by blast

lemma connected_within:
  assumes "(x, y) \<in> (near dist t)\<^sup>*" and "x < length dist" and "length owner = length dist"
    and "\<forall>u<length dist. \<forall>v<length dist. owner ! u \<noteq> owner ! v \<longrightarrow> d \<le> dist ! u ! v"
    and "t < d"
  shows "y < length dist \<and> owner ! y = owner ! x"
  using assms(1)
proof (induction rule: rtrancl_induct)
  case base
  then show ?case using assms(2) by simp
next
  case (step y z)
  from step(2) have yz: "y < length dist" "z < length dist" "dist ! y ! z \<le> t"
    by (auto simp: near_def)
  with assms(4,5) have "owner ! y = owner ! z" by force
  with step(3) yz show ?case by simp
qed

lemma near_sym:
  "\<forall>x<length dist. \<forall>y<length dist. dist ! x ! y = dist ! y ! x \<Longrightarrow> sym (near dist t)"
  by (auto simp: near_def sym_def)

lemma connected_sym:
  assumes "\<forall>x<length dist. \<forall>y<length dist. dist ! x ! y = dist ! y ! x"
    and "(x, y) \<in> (near dist t)\<^sup>*"
  shows "(y, x) \<in> (near dist t)\<^sup>*"
  using sym_rtrancl [OF near_sym [OF assms(1)]] assms(2) by (auto simp: sym_def)

lemma component_eq:
  assumes "\<forall>x<length dist. \<forall>y<length dist. dist ! x ! y = dist ! y ! x"
    and "(x, y) \<in> (near dist t)\<^sup>*"
  shows "component dist t x = component dist t y"
proof -
  from connected_sym [OF assms] have "(y, x) \<in> (near dist t)\<^sup>*" .
  with assms(2) show ?thesis
    by (auto simp: component_def intro: rtrancl_trans)
qed

section \<open>Nodes and their leaves\<close>

lemma finite_cluster: "finite (cluster owner x)"
  by (simp add: cluster_def)

lemma cluster_self: "x < length owner \<Longrightarrow> x \<in> cluster owner x"
  by (simp add: cluster_def)

lemma cluster_join:
  assumes "x < length owner" and "n_id \<notin> set owner"
  shows "cluster (join_nodes a b n_id owner) x =
    (if owner ! x = a \<or> owner ! x = b
     then {y. y < length owner \<and> (owner ! y = a \<or> owner ! y = b)}
     else cluster owner x)"
proof -
  have ne: "\<forall>y<length owner. owner ! y \<noteq> n_id"
    using assms(2) by (metis nth_mem)
  have j: "\<forall>y<length owner. join_nodes a b n_id owner ! y =
      (if owner ! y = a \<or> owner ! y = b then n_id else owner ! y)"
    by (simp add: join_nodes_def)
  have l: "length (join_nodes a b n_id owner) = length owner"
    by (simp add: join_nodes_def)
  show ?thesis
  proof (cases "owner ! x = a \<or> owner ! x = b")
    case True
    with j assms(1) have "join_nodes a b n_id owner ! x = n_id" by simp
    then have "cluster (join_nodes a b n_id owner) x =
        {y. y < length owner \<and> join_nodes a b n_id owner ! y = n_id}"
      by (simp add: cluster_def l)
    also have "\<dots> = {y. y < length owner \<and> (owner ! y = a \<or> owner ! y = b)}"
      using j ne by (auto split: if_splits)
    finally show ?thesis using True by simp
  next
    case False
    with j assms(1) have x: "join_nodes a b n_id owner ! x = owner ! x" by simp
    from ne assms(1) have "owner ! x \<noteq> n_id" by simp
    with j False have "{y. y < length owner \<and> join_nodes a b n_id owner ! y = owner ! x} =
        {y. y < length owner \<and> owner ! y = owner ! x}"
      by (auto split: if_splits)
    with x False show ?thesis by (simp add: cluster_def l)
  qed
qed

lemma set_join_nodes:
  assumes "a \<in> set owner" and "b \<in> set owner"
  shows "set (join_nodes a b n_id owner) = insert n_id (set owner - {a, b})"
  using assms by (auto simp: join_nodes_def)

lemma enc_invD:
  assumes "enc_inv ids dist w n_id h owner descendents res"
  shows "length owner = length ids" "length res = length ids" "rect w res" "0 < w"
    "length descendents = 2 * length ids - 1"
    "\<forall>c\<in>set owner. c < n_id" "n_id + card (set owner) = 2 * length ids"
    "\<forall>x<length ids. \<exists>xs. descendents ! (owner ! x) = Some xs \<and> xs \<noteq> []
            \<and> set xs = (!) ids ` cluster owner x \<and> hd xs = cmin ids owner x"
    "\<forall>x<length ids. \<forall>j. h < j \<and> j < w \<longrightarrow> res ! x ! j = cmin ids owner x"
    "\<forall>x<length ids. \<forall>y<length ids. owner ! x \<noteq> owner ! y \<longrightarrow> h \<le> dist ! x ! y"
    "\<forall>x<length ids. \<forall>y<length ids. owner ! x = owner ! y \<longrightarrow> (x, y) \<in> (near dist h)\<^sup>*"
    "\<forall>x<length ids. \<forall>t<h. t + 1 < w \<longrightarrow>
            res ! x ! (t + 1) = Min ((!) ids ` component dist t x)"
    "\<forall>x<length ids. res ! x ! 0 = ids ! x"
  using assms unfolding enc_inv_def by simp_all

lemma merge_step:
  assumes inv: "enc_inv ids dist w n_id h owner descendents res"
    and di: "distinct ids" and ld: "length dist = length ids"
    and sym: "\<forall>x<length dist. \<forall>y<length dist. dist ! x ! y = dist ! y ! x"
    and ab: "a \<noteq> b"
    and x0: "x0 < length ids" "owner ! x0 = a" and y0: "y0 < length ids" "owner ! y0 = b"
    and d: "dist ! x0 ! y0 = d"
    and low: "\<forall>x<length ids. \<forall>y<length ids. owner ! x \<noteq> owner ! y \<longrightarrow> d \<le> dist ! x ! y"
  shows "\<exists>descendents' res'.
      merge_event (index_of ids) n_id (a, b, d) (descendents, res) = Inr (descendents', res')
      \<and> enc_inv ids dist w (Suc n_id) d (join_nodes a b n_id owner) descendents' res'"
proof -
  let ?n = "length ids"
  note I = enc_invD [OF inv]
  have ain: "a \<in> set owner" "b \<in> set owner"
    using x0 y0 I(1) by (metis nth_mem)+
  have nid: "n_id \<notin> set owner" using I(6) by auto
  have "card {a, b} \<le> card (set owner)"
    using ain by (intro card_mono) auto
  with ab have card2: "2 \<le> card (set owner)" by simp
  have nl: "n_id < length descendents" "a < length descendents" "b < length descendents"
    using I(5,6,7) card2 ain by force+
  from I(8) x0 obtain xa where xa: "descendents ! a = Some xa" "xa \<noteq> []"
    "set xa = (!) ids ` cluster owner x0" "hd xa = cmin ids owner x0"
    by blast
  from I(8) y0 obtain xb where xb: "descendents ! b = Some xb" "xb \<noteq> []"
    "set xb = (!) ids ` cluster owner y0" "hd xb = cmin ids owner y0"
    by blast
  define anchor where "anchor = (if hd xa \<le> hd xb then xa else xb)"
  define absorbed where "absorbed = (if hd xa \<le> hd xb then xb else xa)"
  define p where "p = (if hd xa \<le> hd xb then x0 else y0)"
  define q where "q = (if hd xa \<le> hd xb then y0 else x0)"
  have pq: "p < ?n" "q < ?n" "owner ! p \<noteq> owner ! q"
    "owner ! p = a \<or> owner ! p = b" "owner ! q = a \<or> owner ! q = b"
    using x0 y0 ab by (auto simp: p_def q_def)
  have dpq: "dist ! p ! q = d" "dist ! q ! p = d"
    using d sym x0(1) y0(1) ld by (auto simp: p_def q_def)
  have an: "anchor \<noteq> []" "set anchor = (!) ids ` cluster owner p" "hd anchor = cmin ids owner p"
    using xa xb by (auto simp: anchor_def p_def)
  have ab': "absorbed \<noteq> []" "set absorbed = (!) ids ` cluster owner q"
    "hd absorbed = cmin ids owner q"
    using xa xb by (auto simp: absorbed_def q_def)
  have le: "cmin ids owner p \<le> cmin ids owner q"
    using xa(4) xb(4) by (auto simp: p_def q_def)
  define P where "P = cluster owner p"
  define Q where "Q = cluster owner q"
  have fin: "finite P" "finite Q" "P \<noteq> {}" "Q \<noteq> {}"
    using pq(1,2) I(1) cluster_self [of p owner] cluster_self [of q owner]
    by (auto simp: P_def Q_def finite_cluster)
  have PQ: "P \<union> Q = {y. y < length owner \<and> (owner ! y = a \<or> owner ! y = b)}"
    using pq(3,4,5) by (auto simp: P_def Q_def cluster_def)
  have Plt: "\<forall>y\<in>P \<union> Q. y < ?n" using I(1) by (auto simp: P_def Q_def cluster_def)
  have "cmin ids owner p \<in> (!) ids ` P"
    unfolding cmin_def P_def [symmetric] using fin by (intro Min_in) auto
  then obtain ai where ai: "ai \<in> P" "ids ! ai = cmin ids owner p" by auto
  have ail: "ai < ?n" using ai(1) Plt by simp
  have "min_list anchor = ids ! ai"
    using min_list_Min [OF an(1)] an(2) ai(2) by (simp add: cmin_def)
  with ail di have idx_a: "index_of ids (min_list anchor) = Some ai"
    by (simp add: index_of_distinct)
  have idx_q: "\<forall>tgt\<in>set absorbed. \<exists>i<length res. index_of ids tgt = Some i"
  proof
    fix tgt assume "tgt \<in> set absorbed"
    with ab'(2) obtain y where "y \<in> Q" "tgt = ids ! y" by (auto simp: Q_def)
    with Plt di I(2) show "\<exists>i<length res. index_of ids tgt = Some i"
      by (auto simp: index_of_distinct)
  qed
  have abs_iff: "(\<exists>tgt\<in>set absorbed. index_of ids tgt = Some j) \<longleftrightarrow> j \<in> Q" if "j < ?n" for j
  proof
    assume "\<exists>tgt\<in>set absorbed. index_of ids tgt = Some j"
    then obtain y where y: "y \<in> Q" "index_of ids (ids ! y) = Some j"
      using ab'(2) by (auto simp: Q_def)
    with Plt di have "index_of ids (ids ! y) = Some y" by (simp add: index_of_distinct)
    with y show "j \<in> Q" by simp
  next
    assume "j \<in> Q"
    then have "ids ! j \<in> set absorbed" using ab'(2) by (simp add: Q_def)
    moreover have "index_of ids (ids ! j) = Some j"
      using that di by (simp add: index_of_distinct)
    ultimately show "\<exists>tgt\<in>set absorbed. index_of ids tgt = Some j" by blast
  qed
  from merge_event_result [OF nl(2,3,1) xa(1) xb(1) xa(2) xb(2) anchor_def absorbed_def idx_a _ idx_q I(3),
      where d = d] ail I(2)
  obtain res' where me: "merge_event (index_of ids) n_id (a, b, d) (descendents, res) =
      Inr (descendents[n_id := Some (anchor @ absorbed)], res')"
    and lr': "length res' = length res" and re': "rect w res'"
    and rows: "\<forall>j<length res. res' ! j =
        (if \<exists>tgt\<in>set absorbed. index_of ids tgt = Some j
         then overwrite_from (d + 1) (res ! j) (res ! ai) else res ! j)"
    by auto
  have entry: "res' ! j ! c = (if j \<in> Q \<and> d < c then res ! ai ! c else res ! j ! c)"
    if "j < ?n" "c < w" for j c
  proof -
    have "length (res ! j) = w" "length (res ! ai) = w"
      using I(2,3) that(1) ail by (simp_all add: rect_nth)
    with rows that abs_iff [OF that(1)] I(2) show ?thesis
      by (auto simp: nth_overwrite_from)
  qed
  define owner' where "owner' = join_nodes a b n_id owner"
  define descendents' where "descendents' = descendents[n_id := Some (anchor @ absorbed)]"
  have lo': "length owner' = ?n" by (simp add: owner'_def join_nodes_def I(1))
  have ow': "owner' ! x = (if x \<in> P \<union> Q then n_id else owner ! x)" if "x < ?n" for x
    using that PQ I(1) by (auto simp: owner'_def join_nodes_def)
  have cl': "cluster owner' x = (if x \<in> P \<union> Q then P \<union> Q else cluster owner x)"
    if "x < ?n" for x
    using cluster_join [of x owner n_id a b] that I(1) nid PQ by (auto simp: owner'_def)
  have "Min ((!) ids ` (P \<union> Q)) = min (Min ((!) ids ` P)) (Min ((!) ids ` Q))"
    using fin by (simp add: image_Un Min_Un)
  with le have minPQ: "Min ((!) ids ` (P \<union> Q)) = cmin ids owner p"
    by (simp add: cmin_def P_def Q_def)
  have cm': "cmin ids owner' x = (if x \<in> P \<union> Q then cmin ids owner p else cmin ids owner x)"
    if "x < ?n" for x
    using cl' [OF that] minPQ by (simp add: cmin_def)
  have cmP: "cmin ids owner x = cmin ids owner p" if "x \<in> P" for x
  proof -
    from that have "cluster owner x = cluster owner p" by (auto simp: P_def cluster_def)
    then show ?thesis by (simp add: cmin_def)
  qed
  have hd: "h \<le> d" using I(10) pq(1,2,3) dpq(1) by auto
  have same: "x \<in> P \<union> Q \<longleftrightarrow> y \<in> P \<union> Q" if "x < ?n" "y < ?n" "owner ! x = owner ! y" for x y
    using that PQ I(1) by auto
  have i6: "\<forall>c\<in>set owner'. c < Suc n_id"
    using I(6) set_join_nodes [OF ain, of n_id] by (auto simp: owner'_def)
  have "card (set owner - {a, b}) = card (set owner) - card {a, b}"
    using ain by (intro card_Diff_subset) auto
  moreover have "card (set owner') = Suc (card (set owner - {a, b}))"
    using set_join_nodes [OF ain, of n_id] nid by (simp add: owner'_def)
  ultimately have i7: "Suc n_id + card (set owner') = 2 * ?n"
    using I(7) card2 ab by simp
  have i8: "\<exists>xs. descendents' ! (owner' ! x) = Some xs \<and> xs \<noteq> []
            \<and> set xs = (!) ids ` cluster owner' x \<and> hd xs = cmin ids owner' x"
    if x: "x < ?n" for x
  proof (cases "x \<in> P \<union> Q")
    case True
    have "descendents' ! (owner' ! x) = Some (anchor @ absorbed)"
      using ow' [OF x] True nl(1) by (simp add: descendents'_def)
    moreover have "set (anchor @ absorbed) = (!) ids ` cluster owner' x"
      using cl' [OF x] True an(2) ab'(2) by (simp add: image_Un P_def Q_def)
    moreover have "hd (anchor @ absorbed) = cmin ids owner' x"
      using cm' [OF x] True an(1,3) by simp
    ultimately show ?thesis using an(1) by simp
  next
    case False
    from x I(1) have "owner ! x \<in> set owner" by simp
    with nid have "owner ! x \<noteq> n_id" by auto
    then have "descendents' ! (owner' ! x) = descendents ! (owner ! x)"
      using ow' [OF x] False by (simp add: descendents'_def)
    with I(8) x cl' [OF x] cm' [OF x] False show ?thesis by simp
  qed
  have i9: "res' ! x ! j = cmin ids owner' x" if x: "x < ?n" and j: "d < j" "j < w" for x j
  proof -
    from j hd have hj: "h < j" by simp
    show ?thesis
    proof (cases "x \<in> Q")
      case True
      from I(9) ail hj j(2) have "res ! ai ! j = cmin ids owner ai" by simp
      with cmP [OF ai(1)] entry [OF x j(2)] True j(1) cm' [OF x] show ?thesis by simp
    next
      case False
      from I(9) x hj j(2) have "res ! x ! j = cmin ids owner x" by simp
      with entry [OF x j(2)] False cm' [OF x] cmP [of x] show ?thesis by auto
    qed
  qed
  have i10: "d \<le> dist ! x ! y" if "x < ?n" "y < ?n" "owner' ! x \<noteq> owner' ! y" for x y
  proof -
    have "owner ! x \<noteq> owner ! y"
    proof
      assume e: "owner ! x = owner ! y"
      from same [OF that(1,2) e] ow' [OF that(1)] ow' [OF that(2)] e
      have "owner' ! x = owner' ! y" by simp
      with that(3) show False by simp
    qed
    with low that(1,2) show ?thesis by simp
  qed
  have edge: "(p, q) \<in> near dist d" "(q, p) \<in> near dist d"
    using pq(1,2) dpq ld by (simp_all add: near_def)
  have inP: "(x, p) \<in> (near dist d)\<^sup>*" "(p, x) \<in> (near dist d)\<^sup>*" if "x \<in> P" for x
  proof -
    from that have "x < ?n" "owner ! x = owner ! p" using I(1) by (auto simp: P_def cluster_def)
    with I(11) pq(1) have "(x, p) \<in> (near dist h)\<^sup>*" "(p, x) \<in> (near dist h)\<^sup>*" by auto
    then show "(x, p) \<in> (near dist d)\<^sup>*" "(p, x) \<in> (near dist d)\<^sup>*"
      using connected_mono [OF hd] by blast+
  qed
  have inQ: "(x, q) \<in> (near dist d)\<^sup>*" "(q, x) \<in> (near dist d)\<^sup>*" if "x \<in> Q" for x
  proof -
    from that have "x < ?n" "owner ! x = owner ! q" using I(1) by (auto simp: Q_def cluster_def)
    with I(11) pq(2) have "(x, q) \<in> (near dist h)\<^sup>*" "(q, x) \<in> (near dist h)\<^sup>*" by auto
    then show "(x, q) \<in> (near dist d)\<^sup>*" "(q, x) \<in> (near dist d)\<^sup>*"
      using connected_mono [OF hd] by blast+
  qed
  have i11: "(x, y) \<in> (near dist d)\<^sup>*" if x: "x < ?n" and y: "y < ?n"
    and o: "owner' ! x = owner' ! y" for x y
  proof (cases "owner ! x = owner ! y")
    case True
    with I(11) x y have "(x, y) \<in> (near dist h)\<^sup>*" by simp
    then show ?thesis by (rule connected_mono [OF hd])
  next
    case False
    have ox: "owner ! x \<noteq> n_id" "owner ! y \<noteq> n_id"
      using x y I(1) nid by (metis nth_mem)+
    with False o ow' [OF x] ow' [OF y] have xy: "x \<in> P \<union> Q" "y \<in> P \<union> Q"
      by (auto split: if_splits)
    have PQo: "\<And>u v. u \<in> P \<Longrightarrow> v \<in> P \<Longrightarrow> owner ! u = owner ! v"
      "\<And>u v. u \<in> Q \<Longrightarrow> v \<in> Q \<Longrightarrow> owner ! u = owner ! v"
      by (auto simp: P_def Q_def cluster_def)
    from xy False PQo consider "x \<in> P" "y \<in> Q" | "x \<in> Q" "y \<in> P" by blast
    then show ?thesis
    proof cases
      case 1
      from inP(1) [OF 1(1)] edge(1) inQ(2) [OF 1(2)] show ?thesis
        by (meson rtrancl.rtrancl_into_rtrancl rtrancl_trans)
    next
      case 2
      from inQ(1) [OF 2(1)] edge(2) inP(2) [OF 2(2)] show ?thesis
        by (meson rtrancl.rtrancl_into_rtrancl rtrancl_trans)
    qed
  qed
  have i12: "res' ! x ! (t + 1) = Min ((!) ids ` component dist t x)"
    if x: "x < ?n" and t: "t < d" "t + 1 < w" for x t
  proof -
    have keep: "res' ! x ! (t + 1) = res ! x ! (t + 1)"
      using entry [OF x t(2)] t(1) by simp
    show ?thesis
    proof (cases "t < h")
      case True
      with I(12) x t(2) keep show ?thesis by simp
    next
      case False
      with I(9) x t(2) keep have r: "res' ! x ! (t + 1) = cmin ids owner x" by simp
      have "component dist t x = cluster owner x"
      proof (intro set_eqI iffI)
        fix y assume "y \<in> component dist t x"
        then have "(x, y) \<in> (near dist t)\<^sup>*" by (simp add: component_def)
        from connected_within [OF this, of owner d] x ld I(1) low t(1)
        show "y \<in> cluster owner x" by (simp add: cluster_def)
      next
        fix y assume "y \<in> cluster owner x"
        then have y: "y < ?n" "owner ! x = owner ! y" using I(1) by (auto simp: cluster_def)
        with I(11) x have "(x, y) \<in> (near dist h)\<^sup>*" by simp
        with False have "(x, y) \<in> (near dist t)\<^sup>*" by (intro connected_mono [of h t]) simp_all
        with y(1) ld show "y \<in> component dist t x" by (simp add: component_def)
      qed
      with r show ?thesis by (simp add: cmin_def)
    qed
  qed
  have i13: "res' ! x ! 0 = ids ! x" if "x < ?n" for x
    using entry [OF that I(4)] I(13) that by simp
  have "enc_inv ids dist w (Suc n_id) d owner' descendents' res'"
    unfolding enc_inv_def
    using lo' lr' I(2) re' I(4) I(5) i6 i7 i8 i9 i10 i11 i12 i13
    by (simp add: descendents'_def)
  with me show ?thesis by (auto simp: owner'_def descendents'_def)
qed

lemma encode_single_linkage:
  assumes "single_linkage dist n_id owner slc"
    and "enc_inv ids dist w n_id h owner descendents res"
    and "distinct ids" and "length dist = length ids"
    and "\<forall>x<length dist. \<forall>y<length dist. dist ! x ! y = dist ! y ! x"
  shows "\<exists>descendents' res' h' owner'.
      encode (index_of ids) n_id slc (descendents, res) = Inr (descendents', res')
      \<and> enc_inv ids dist w (n_id + length slc) h' owner' descendents' res'
      \<and> (\<forall>x\<in>set owner'. \<forall>y\<in>set owner'. x = y)"
  using assms(1,2)
proof (induction slc arbitrary: n_id h owner descendents res)
  case Nil
  then show ?case by auto
next
  case (Cons c slc)
  obtain a b d where c: "c = (a, b, d)" by (cases c) auto
  note lo = enc_invD(1) [OF Cons.prems(2)]
  from Cons.prems(1) [unfolded c] lo obtain x0 y0 where
    ab: "a \<noteq> b" and x0: "x0 < length ids" "owner ! x0 = a"
    and y0: "y0 < length ids" "owner ! y0 = b" and d: "dist ! x0 ! y0 = d"
    and low: "\<forall>x<length ids. \<forall>y<length ids. owner ! x \<noteq> owner ! y \<longrightarrow> d \<le> dist ! x ! y"
    and rest: "single_linkage dist (Suc n_id) (join_nodes a b n_id owner) slc"
    by auto
  from merge_step [OF Cons.prems(2) assms(3,4,5) ab x0 y0 d low]
  obtain ds1 res1 where
    m: "merge_event (index_of ids) n_id (a, b, d) (descendents, res) = Inr (ds1, res1)"
    and i: "enc_inv ids dist w (Suc n_id) d (join_nodes a b n_id owner) ds1 res1"
    by blast
  from Cons.IH [OF rest i] m show ?case by (simp add: c)
qed

lemma enc_inv_final:
  assumes "enc_inv ids dist w n_id h owner descendents res"
    and "\<forall>x\<in>set owner. \<forall>y\<in>set owner. x = y" and "length dist = length ids"
    and "x < length ids" and "t + 1 < w"
  shows "res ! x ! (t + 1) = Min ((!) ids ` component dist t x)"
proof (cases "t < h")
  case True
  with enc_invD(12) [OF assms(1)] assms(4,5) show ?thesis by simp
next
  case False
  note I = enc_invD [OF assms(1)]
  from I(9) assms(4,5) False have r: "res ! x ! (t + 1) = cmin ids owner x" by simp
  have "component dist t x = cluster owner x"
  proof (intro set_eqI iffI)
    fix y assume "y \<in> component dist t x"
    then have "y < length owner" using assms(3) I(1) by (simp add: component_def)
    with assms(2,4) I(1) show "y \<in> cluster owner x" by (simp add: cluster_def)
  next
    fix y assume "y \<in> cluster owner x"
    then have y: "y < length ids" "owner ! x = owner ! y" using I(1) by (auto simp: cluster_def)
    with I(11) assms(4) have "(x, y) \<in> (near dist h)\<^sup>*" by simp
    with False have "(x, y) \<in> (near dist t)\<^sup>*" by (intro connected_mono [of h t]) simp_all
    with y(1) assms(3) show "y \<in> component dist t x" by (simp add: component_def)
  qed
  with r show ?thesis by (simp add: cmin_def)
qed

lemma enc_inv_initial:
  assumes "mat \<noteq> []" and "\<forall>r\<in>set mat. length r = k" and "\<forall>r\<in>set mat. 0 \<le> hd r"
  shows "enc_inv (map hd mat) dist (k + 1) (length mat) 0 [0..<length mat]
           (initial_descendents mat) (init_res mat)"
proof -
  let ?n = "length mat"
  have cl: "cluster [0..<?n] x = {x}" if "x < ?n" for x
    using that by (auto simp: cluster_def)
  have cm: "cmin (map hd mat) [0..<?n] x = hd (mat ! x)" if "x < ?n" for x
    using that by (simp add: cmin_def cl)
  have 3: "rect (k + 1) (init_res mat)"
    using assms(2) by (auto simp: rect_def init_res_def Let_def)
  have 5: "length (initial_descendents mat) = 2 * ?n - 1"
    using assms(1) by (cases mat) (simp_all add: initial_descendents_def)
  have 8: "\<exists>xs. initial_descendents mat ! ([0..<?n] ! x) = Some xs \<and> xs \<noteq> []
      \<and> set xs = (!) (map hd mat) ` cluster [0..<?n] x \<and> hd xs = cmin (map hd mat) [0..<?n] x"
    if "x < ?n" for x
    using that by (simp add: initial_descendents_def nth_append cl cm)
  have 9: "init_res mat ! x ! j = cmin (map hd mat) [0..<?n] x" if "x < ?n" "0 < j" "j < k + 1" for x j
  proof -
    from that(1) assms(2,3) have "length (mat ! x) = k" "0 \<le> hd (mat ! x)" by simp_all
    with that cm [OF that(1)] show ?thesis
      by (cases j) (simp_all add: init_res_def Let_def)
  qed
  have 13: "init_res mat ! x ! 0 = map hd mat ! x" if "x < ?n" for x
    using that by (simp add: init_res_def Let_def)
  show ?thesis
    unfolding enc_inv_def using 3 5 8 9 13 by (simp add: length_init_res)
qed

section \<open>The distance matrix\<close>

lemma allelic_distance_sym: "allelic_distance p q = allelic_distance q p"
proof -
  have "filter (\<lambda>(a, b). a > 0 \<and> b > 0 \<and> a \<noteq> b) (zip (tl p) (tl q)) =
      map (\<lambda>(x, y). (y, x)) (filter (\<lambda>(a, b). a > 0 \<and> b > 0 \<and> a \<noteq> b) (zip (tl q) (tl p)))"
    by (subst zip_commute) (auto simp: filter_map comp_def intro!: arg_cong [where f = "map _"] filter_cong)
  then show ?thesis by (simp add: allelic_distance_def)
qed

lemma allelic_distance_self: "allelic_distance p p = 0"
  by (auto simp: allelic_distance_def filter_empty_conv zip_same)

lemma allelic_distance_le: "allelic_distance p q \<le> length p - 1"
proof -
  have "allelic_distance p q \<le> length (zip (tl p) (tl q))"
    unfolding allelic_distance_def by (rule length_filter_le)
  then show ?thesis by simp
qed

lemma length_dist: "length (add_transpose (syn_dist mat)) = length mat"
  by (simp add: add_transpose_def syn_dist_def)

lemma nth_dist:
  assumes "x < length mat" and "y < length mat"
  shows "add_transpose (syn_dist mat) ! x ! y = allelic_distance (mat ! x) (mat ! y)"
proof -
  have "add_transpose (syn_dist mat) ! x ! y =
      (if y < x then allelic_distance (mat ! x) (mat ! y) else 0)
      + (if x < y then allelic_distance (mat ! y) (mat ! x) else 0)"
    using assms by (simp add: add_transpose_def syn_dist_def)
  then show ?thesis
    using allelic_distance_sym [of "mat ! y" "mat ! x"] allelic_distance_self [of "mat ! x"]
    by (cases x y rule: linorder_cases) simp_all
qed

lemma near_dist_linked: "near (add_transpose (syn_dist mat)) t = linked mat t"
  by (auto simp: near_def linked_def length_dist nth_dist)

lemma nth_asyn_dist:
  "k < length mat \<Longrightarrow>
   asyn_dist mat 0 ! k = map (\<lambda>j. allelic_distance (mat ! k) (mat ! j)) [0..<length mat]"
  by (simp add: asyn_dist_def)

section \<open>When the attachment pass changes nothing\<close>

lemma attach_unchanged:
  assumes "\<forall>j. k \<le> j \<and> j < length res \<and> j - k < length ds \<longrightarrow>
    attach_row j (ds ! (j - k)) res = Inr res"
  shows "attach k ds res = Inr res"
  using assms
proof (induction ds arbitrary: k)
  case Nil
  then show ?case by simp
next
  case (Cons d ds)
  show ?case
  proof (cases "k \<ge> length res")
    case True
    then show ?thesis by simp
  next
    case False
    with Cons.prems have 1: "attach_row k d res = Inr res" by force
    have "attach (Suc k) ds res = Inr res"
    proof (rule Cons.IH, intro allI impI)
      fix j assume j: "Suc k \<le> j \<and> j < length res \<and> j - Suc k < length ds"
      then have "k \<le> j \<and> j < length res \<and> j - k < length (d # ds)" by auto
      with Cons.prems have "attach_row j ((d # ds) ! (j - k)) res = Inr res" by blast
      moreover from j have "(d # ds) ! (j - k) = ds ! (j - Suc k)"
        by (simp add: Suc_diff_le)
      ultimately show "attach_row j (ds ! (j - Suc k)) res = Inr res" by simp
    qed
    with 1 False show ?thesis by simp
  qed
qed

lemma attach_row_same_code:
  assumes "k < length res" and "take k d \<noteq> []" and "rect w res"
    and "d ! argmin (take k d) + 1 < w"
    and "res ! k ! (d ! argmin (take k d) + 1) = res ! argmin (take k d) ! (d ! argmin (take k d) + 1)"
  shows "attach_row k d res = Inr res"
proof -
  from argmin_less [OF assms(2)] have "argmin (take k d) < k" by simp
  with assms(1,3) have "length (res ! k) = w" "length (res ! argmin (take k d)) = w"
    by (simp_all add: rect_nth)
  with assms show ?thesis by (simp add: attach_row_def Let_def)
qed

lemma set_ids_unchanged:
  assumes "length res = length mat" and "rect w res" and "0 < w"
    and "\<forall>i<length mat. res ! i ! 0 = hd (mat ! i)"
  shows "set_ids mat res = res"
proof (rule nth_equalityI)
  show "length (set_ids mat res) = length res"
    using assms(1) by (simp add: set_ids_def)
next
  fix i assume "i < length (set_ids mat res)"
  then have i: "i < length mat" using assms(1) by (simp add: set_ids_def)
  with assms(1,2) have "length (res ! i) = w" by (simp add: rect_nth)
  with assms(3) have "res ! i \<noteq> []" by auto
  then have "res ! i ! 0 # tl (res ! i) = res ! i"
    by (cases "res ! i") simp_all
  with assms(1,4) i show "set_ids mat res ! i = res ! i"
    by (simp add: set_ids_nth)
qed

section \<open>The run without \<open>--append\<close>\<close>

lemma order_full_facts:
  "set (order_full mat0) = set mat0" "length (order_full mat0) = length mat0"
  "distinct (map hd mat0) \<Longrightarrow> distinct (map hd (order_full mat0))"
  by (simp_all add: order_full_def distinct_map)

lemma full_run_result:
  assumes "2 \<le> length mat0" and "\<forall>r\<in>set mat0. length r = L + 1"
    and "\<forall>r\<in>set mat0. 0 < hd r" and "distinct (map hd mat0)"
    and "mat = order_full mat0" and "dist = add_transpose (syn_dist mat)"
    and "is_single_linkage dist (linkage dist)"
  shows "\<exists>ds res. encode_full linkage mat = Inr (ds, res)
      \<and> attach 0 (asyn_dist mat 0) res = Inr res
      \<and> hierCC_full linkage mat0 = Inr res
      \<and> length res = length mat \<and> rect (L + 2) res
      \<and> (\<forall>i<length mat. res ! i ! 0 = hd (mat ! i))
      \<and> (\<forall>i<length mat. \<forall>t\<le>L.
            code_at res i t = Min ((!) (map hd mat) ` component dist t i))
      \<and> (\<forall>k<length mat. 0 < k \<longrightarrow>
            res ! k ! (asyn_dist mat 0 ! k ! argmin (take k (asyn_dist mat 0 ! k)) + 1) =
            res ! argmin (take k (asyn_dist mat 0 ! k))
              ! (asyn_dist mat 0 ! k ! argmin (take k (asyn_dist mat 0 ! k)) + 1))"
proof -
  let ?n = "length mat" and ?ids = "map hd mat"
  have sm: "set mat = set mat0" and lm: "?n = length mat0" and di: "distinct ?ids"
    using order_full_facts [of mat0] assms(4,5) by simp_all
  have ne: "mat \<noteq> []" using lm assms(1) by auto
  have rows: "\<forall>r\<in>set mat. length r = L + 1" and pos: "\<forall>r\<in>set mat. 0 \<le> hd r"
    using assms(2,3) sm by auto
  have ld: "length dist = length ?ids" by (simp add: assms(6) length_dist)
  have sym: "\<forall>x<length dist. \<forall>y<length dist. dist ! x ! y = dist ! y ! x"
    using ld by (simp add: assms(6) nth_dist allelic_distance_sym)
  have sl: "single_linkage dist ?n [0..<?n] (linkage dist)"
    using assms(7) ld by (simp add: is_single_linkage_def)
  from enc_inv_initial [OF ne rows pos, of dist]
  have "enc_inv ?ids dist (L + 2) ?n 0 [0..<?n] (initial_descendents mat) (init_res mat)"
    by simp
  from encode_single_linkage [OF sl this di ld sym]
  obtain ds res h' owner' where
    e: "encode (index_of ?ids) ?n (linkage dist) (initial_descendents mat, init_res mat) =
      Inr (ds, res)"
    and inv: "enc_inv ?ids dist (L + 2) (?n + length (linkage dist)) h' owner' ds res"
    and one: "\<forall>x\<in>set owner'. \<forall>y\<in>set owner'. x = y"
    by blast
  have ef: "encode_full linkage mat = Inr (ds, res)"
    using e by (simp add: encode_full_def assms(6))
  note I = enc_invD [OF inv]
  have lr: "length res = ?n" using I(2) by simp
  have c0: "\<forall>i<?n. res ! i ! 0 = hd (mat ! i)" using I(13) by simp
  have codes: "code_at res i t = Min ((!) ?ids ` component dist t i)" if "i < ?n" "t \<le> L" for i t
    using enc_inv_final [OF inv one ld, of i t] that by (simp add: code_at_def)
  have nb: "take k (asyn_dist mat 0 ! k) \<noteq> [] \<and>
      asyn_dist mat 0 ! k ! argmin (take k (asyn_dist mat 0 ! k)) \<le> L \<and>
      res ! k ! (asyn_dist mat 0 ! k ! argmin (take k (asyn_dist mat 0 ! k)) + 1) =
      res ! argmin (take k (asyn_dist mat 0 ! k))
        ! (asyn_dist mat 0 ! k ! argmin (take k (asyn_dist mat 0 ! k)) + 1)"
    if kn: "k < ?n" and False: "k \<noteq> 0" for k
  proof -
    let ?d = "asyn_dist mat 0 ! k"
    have d: "?d = map (\<lambda>j. allelic_distance (mat ! k) (mat ! j)) [0..<?n]"
      using kn by (rule nth_asyn_dist)
    have tk: "take k ?d \<noteq> []" using False kn ne by (simp add: d)
    define i where "i = argmin (take k ?d)"
    from argmin_less [OF tk] have ik: "i < k" by (simp add: i_def)
    with kn have i_n: "i < ?n" by simp
    define m where "m = ?d ! i"
    have m: "m = allelic_distance (mat ! k) (mat ! i)" using i_n by (simp add: m_def d)
    have "length (mat ! k) = L + 1" using rows kn by simp
    with allelic_distance_le [of "mat ! k" "mat ! i"] m have mL: "m \<le> L" by simp
    have "(k, i) \<in> near dist m"
      using kn i_n m by (simp add: assms(6) near_dist_linked linked_def)
    then have "(k, i) \<in> (near dist m)\<^sup>*" by (rule r_into_rtrancl)
    from component_eq [OF sym this] codes [OF kn mL] codes [OF i_n mL]
    have "res ! k ! (m + 1) = res ! i ! (m + 1)" by (simp add: code_at_def)
    with tk mL show ?thesis by (simp add: i_def m_def)
  qed
  have row: "attach_row k (asyn_dist mat 0 ! (k - 0)) res = Inr res" if k: "k < length res" for k
  proof (cases "k = 0")
    case True
    then show ?thesis by (simp add: attach_row_def)
  next
    case False
    from k lr have kn: "k < ?n" by simp
    from nb [OF kn False] attach_row_same_code [OF k _ I(3)] show ?thesis by simp
  qed
  have at: "attach 0 (asyn_dist mat 0) res = Inr res"
    by (rule attach_unchanged) (use row in auto)
  have si: "set_ids mat res = res"
    using set_ids_unchanged [OF lr I(3) I(4)] c0 by simp
  have "[] \<notin> set mat" using rows by auto
  with ef at si assms(1) lm have "hierCC_full linkage mat0 = Inr res"
    by (simp add: hierCC_full_def Let_def assms(5) [symmetric])
  moreover have "\<forall>k<?n. 0 < k \<longrightarrow>
      res ! k ! (asyn_dist mat 0 ! k ! argmin (take k (asyn_dist mat 0 ! k)) + 1) =
      res ! argmin (take k (asyn_dist mat 0 ! k))
        ! (asyn_dist mat 0 ! k ! argmin (take k (asyn_dist mat 0 ! k)) + 1)"
    using nb by simp
  ultimately show ?thesis using ef at lr I(3) c0 codes by blast
qed

lemma component_facts:
  "finite (component dist t x)" "x < length dist \<Longrightarrow> x \<in> component dist t x"
  by (simp_all add: component_def)

lemma component_min_eq_iff:
  assumes "distinct ids" and "length dist = length ids"
    and "\<forall>x<length dist. \<forall>y<length dist. dist ! x ! y = dist ! y ! x"
    and "i < length ids" and "j < length ids"
  shows "Min ((!) ids ` component dist t i) = Min ((!) ids ` component dist t j)
     \<longleftrightarrow> (i, j) \<in> (near dist t)\<^sup>*"
proof
  assume "(i, j) \<in> (near dist t)\<^sup>*"
  from component_eq [OF assms(3) this]
  show "Min ((!) ids ` component dist t i) = Min ((!) ids ` component dist t j)" by simp
next
  assume eq: "Min ((!) ids ` component dist t i) = Min ((!) ids ` component dist t j)"
  have "Min ((!) ids ` component dist t i) \<in> (!) ids ` component dist t i"
    using component_facts [where dist = dist and t = t and x = i] assms(2,4) by (intro Min_in) auto
  then obtain k where k: "k \<in> component dist t i" "Min ((!) ids ` component dist t i) = ids ! k"
    by auto
  have "Min ((!) ids ` component dist t j) \<in> (!) ids ` component dist t j"
    using component_facts [where dist = dist and t = t and x = j] assms(2,5) by (intro Min_in) auto
  then obtain k' where k': "k' \<in> component dist t j"
    "Min ((!) ids ` component dist t j) = ids ! k'"
    by auto
  from k k' assms(2) have "k < length ids" "k' < length ids" by (simp_all add: component_def)
  with eq k(2) k'(2) assms(1) have "k = k'" by (simp add: nth_eq_iff_index_eq)
  with k(1) k'(1) have "(i, k) \<in> (near dist t)\<^sup>*" "(j, k) \<in> (near dist t)\<^sup>*"
    by (simp_all add: component_def)
  with connected_sym [OF assms(3)] show "(i, j) \<in> (near dist t)\<^sup>*"
    by (meson rtrancl_trans)
qed

text \<open>
  C1. In a run without \<open>--append\<close> on at least two profiles with \<open>L\<close> loci and distinct
  positive identifiers, with a single-linkage routine, the run returns a matrix whose
  rows are those of the profiles in the order of line 69, and for all profiles \<open>i\<close>,
  \<open>j\<close> and every threshold \<open>t \<le> L\<close>: the codes of \<open>i\<close> and \<open>j\<close> at \<open>t\<close> are equal exactly
  when \<open>i\<close> and \<open>j\<close> are connected at distance \<open>\<le> t\<close>, and the code of \<open>i\<close> at \<open>t\<close> is the
  least identifier among the profiles connected to \<open>i\<close> at distance \<open>\<le> t\<close>.
\<close>

theorem full_run_is_single_linkage:
  assumes "2 \<le> length mat0" and "\<forall>r\<in>set mat0. length r = L + 1"
    and "\<forall>r\<in>set mat0. 0 < hd r" and "distinct (map hd mat0)"
    and "mat = order_full mat0"
    and "is_single_linkage (add_transpose (syn_dist mat)) (linkage (add_transpose (syn_dist mat)))"
  shows "\<exists>res. hierCC_full linkage mat0 = Inr res \<and> length res = length mat
      \<and> (\<forall>i<length mat. hd (res ! i) = hd (mat ! i))
      \<and> (\<forall>i<length mat. \<forall>j<length mat. \<forall>t\<le>L.
            (code_at res i t = code_at res j t \<longleftrightarrow> (i, j) \<in> (linked mat t)\<^sup>*)
            \<and> code_at res i t =
                Min {hd (mat ! k) |k. k < length mat \<and> (i, k) \<in> (linked mat t)\<^sup>*})"
proof -
  define dist where "dist = add_transpose (syn_dist mat)"
  from full_run_result [OF assms(1-5) dist_def] assms(6)
  obtain res where r: "hierCC_full linkage mat0 = Inr res" "length res = length mat"
    "rect (L + 2) res" "\<forall>i<length mat. res ! i ! 0 = hd (mat ! i)"
    "\<forall>i<length mat. \<forall>t\<le>L. code_at res i t = Min ((!) (map hd mat) ` component dist t i)"
    unfolding dist_def by blast
  have di: "distinct (map hd mat)" using order_full_facts(3) [OF assms(4)] assms(5) by simp
  have ld: "length dist = length (map hd mat)" by (simp add: dist_def length_dist)
  have sym: "\<forall>x<length dist. \<forall>y<length dist. dist ! x ! y = dist ! y ! x"
    using ld by (simp add: dist_def nth_dist allelic_distance_sym)
  have nl: "near dist t = linked mat t" for t by (simp add: dist_def near_dist_linked)
  have hd: "hd (res ! i) = hd (mat ! i)" if "i < length mat" for i
  proof -
    from r(2,3) that have "length (res ! i) = L + 2" by (simp add: rect_nth)
    then have "hd (res ! i) = res ! i ! 0" by (cases "res ! i") simp_all
    with r(4) that show ?thesis by simp
  qed
  have img: "(!) (map hd mat) ` component dist t i =
      {hd (mat ! k) |k. k < length mat \<and> (i, k) \<in> (linked mat t)\<^sup>*}" for t i
    using ld by (auto simp: component_def nl)
  have "(code_at res i t = code_at res j t \<longleftrightarrow> (i, j) \<in> (linked mat t)\<^sup>*)
      \<and> code_at res i t = Min {hd (mat ! k) |k. k < length mat \<and> (i, k) \<in> (linked mat t)\<^sup>*}"
    if "i < length mat" "j < length mat" "t \<le> L" for i j t
    using component_min_eq_iff [OF di ld sym, of i j t] that r(5) img [of t i]
    by (simp add: nl)
  with r(1,2) hd show ?thesis by blast
qed

theorem full_run_is_single_linkage_witness:
  "\<exists>res. hierCC_full linkage_single ex_profiles = Inr res \<and> length res = length ex_profiles
      \<and> (\<forall>i<length ex_profiles. hd (res ! i) = hd (ex_profiles ! i))
      \<and> (\<forall>i<length ex_profiles. \<forall>j<length ex_profiles. \<forall>t\<le>3.
            (code_at res i t = code_at res j t \<longleftrightarrow> (i, j) \<in> (linked ex_profiles t)\<^sup>*)
            \<and> code_at res i t =
                Min {hd (ex_profiles ! k) |k.
                  k < length ex_profiles \<and> (i, k) \<in> (linked ex_profiles t)\<^sup>*})"
proof -
  have 1: "2 \<le> length ex_profiles" by (simp add: ex_profiles_def)
  have 2: "\<forall>r\<in>set ex_profiles. length r = 3 + 1" by (simp add: ex_profiles_def)
  have 3: "\<forall>r\<in>set ex_profiles. 0 < hd r" by (simp add: ex_profiles_def)
  have 4: "distinct (map hd ex_profiles)" by (simp add: ex_profiles_def)
  have 5: "ex_profiles = order_full ex_profiles" by code_simp
  have 6: "is_single_linkage (add_transpose (syn_dist ex_profiles))
      (linkage_single (add_transpose (syn_dist ex_profiles)))"
    by code_simp
  from full_run_is_single_linkage [where linkage = linkage_single, OF 1 2 3 4 5 6]
  show ?thesis .
qed

text \<open>
  C8. In a run without \<open>--append\<close> (on at least two profiles with distinct positive
  identifiers, with a single-linkage routine) the attachment pass returns the matrix of
  the encoding unchanged: for every position \<open>k > 0\<close> the code of row \<open>k\<close> at column
  \<open>minD + 1\<close> is not greater than that of its nearest earlier neighbour there.
\<close>

theorem full_run_attachment_changes_nothing:
  assumes "2 \<le> length mat0" and "\<forall>r\<in>set mat0. length r = L + 1"
    and "\<forall>r\<in>set mat0. 0 < hd r" and "distinct (map hd mat0)"
    and "mat = order_full mat0"
    and "is_single_linkage (add_transpose (syn_dist mat)) (linkage (add_transpose (syn_dist mat)))"
  shows "\<exists>ds res. encode_full linkage mat = Inr (ds, res)
      \<and> attach 0 (asyn_dist mat 0) res = Inr res
      \<and> (\<forall>k<length mat. 0 < k \<longrightarrow>
            \<not> res ! k ! (asyn_dist mat 0 ! k ! argmin (take k (asyn_dist mat 0 ! k)) + 1) >
            res ! argmin (take k (asyn_dist mat 0 ! k))
              ! (asyn_dist mat 0 ! k ! argmin (take k (asyn_dist mat 0 ! k)) + 1))"
proof -
  from full_run_result [where dist = "add_transpose (syn_dist mat)" and linkage = linkage,
      OF assms(1-5) refl assms(6)]
  obtain ds res where "encode_full linkage mat = Inr (ds, res)"
    "attach 0 (asyn_dist mat 0) res = Inr res"
    "\<forall>k<length mat. 0 < k \<longrightarrow>
       res ! k ! (asyn_dist mat 0 ! k ! argmin (take k (asyn_dist mat 0 ! k)) + 1) =
       res ! argmin (take k (asyn_dist mat 0 ! k))
         ! (asyn_dist mat 0 ! k ! argmin (take k (asyn_dist mat 0 ! k)) + 1)"
    by blast
  then show ?thesis by (intro exI [of _ ds] exI [of _ res]) simp
qed

theorem full_run_attachment_changes_nothing_witness:
  "\<exists>ds res. encode_full linkage_single ex_profiles = Inr (ds, res)
      \<and> attach 0 (asyn_dist ex_profiles 0) res = Inr res
      \<and> (\<forall>k<length ex_profiles. 0 < k \<longrightarrow>
            \<not> res ! k ! (asyn_dist ex_profiles 0 ! k
                  ! argmin (take k (asyn_dist ex_profiles 0 ! k)) + 1) >
            res ! argmin (take k (asyn_dist ex_profiles 0 ! k))
              ! (asyn_dist ex_profiles 0 ! k ! argmin (take k (asyn_dist ex_profiles 0 ! k)) + 1))"
proof -
  have 1: "2 \<le> length ex_profiles" by (simp add: ex_profiles_def)
  have 2: "\<forall>r\<in>set ex_profiles. length r = 3 + 1" by (simp add: ex_profiles_def)
  have 3: "\<forall>r\<in>set ex_profiles. 0 < hd r" by (simp add: ex_profiles_def)
  have 4: "distinct (map hd ex_profiles)" by (simp add: ex_profiles_def)
  have 5: "ex_profiles = order_full ex_profiles" by code_simp
  have 6: "is_single_linkage (add_transpose (syn_dist ex_profiles))
      (linkage_single (add_transpose (syn_dist ex_profiles)))"
    by code_simp
  from full_run_attachment_changes_nothing [where linkage = linkage_single, OF 1 2 3 4 5 6]
  show ?thesis .
qed

lemma full_run_determined:
  assumes "2 \<le> length mat0" and "\<forall>r\<in>set mat0. length r = L + 1"
    and "\<forall>r\<in>set mat0. 0 < hd r" and "distinct (map hd mat0)"
    and "mat = order_full mat0" and "dist = add_transpose (syn_dist mat)"
    and "is_single_linkage dist (linkage dist)" and "is_single_linkage dist (linkage' dist)"
  shows "hierCC_full linkage mat0 = hierCC_full linkage' mat0"
proof -
  from full_run_result [where linkage = linkage, OF assms(1-7)]
  obtain res where r: "hierCC_full linkage mat0 = Inr res" "length res = length mat"
    "rect (L + 2) res" "\<forall>i<length mat. res ! i ! 0 = hd (mat ! i)"
    "\<forall>i<length mat. \<forall>t\<le>L. code_at res i t = Min ((!) (map hd mat) ` component dist t i)"
    by blast
  from full_run_result [where linkage = linkage', OF assms(1-6,8)]
  obtain res' where r': "hierCC_full linkage' mat0 = Inr res'" "length res' = length mat"
    "rect (L + 2) res'" "\<forall>i<length mat. res' ! i ! 0 = hd (mat ! i)"
    "\<forall>i<length mat. \<forall>t\<le>L. code_at res' i t = Min ((!) (map hd mat) ` component dist t i)"
    by blast
  have "res = res'"
  proof (rule nth_equalityI)
    show "length res = length res'" using r(2) r'(2) by simp
  next
    fix i assume "i < length res"
    with r(2) have i: "i < length mat" by simp
    with r(2,3) r'(2,3) have l: "length (res ! i) = L + 2" "length (res' ! i) = L + 2"
      by (simp_all add: rect_nth)
    show "res ! i = res' ! i"
    proof (rule nth_equalityI)
      show "length (res ! i) = length (res' ! i)" using l by simp
    next
      fix c assume "c < length (res ! i)"
      with l have c: "c < L + 2" by simp
      show "res ! i ! c = res' ! i ! c"
      proof (cases c)
        case 0
        with r(4) r'(4) i show ?thesis by simp
      next
        case (Suc t)
        with c have "t \<le> L" by simp
        with r(5) r'(5) i have "code_at res i t = code_at res' i t" by simp
        with Suc show ?thesis by (simp add: code_at_def)
      qed
    qed
  qed
  with r(1) r'(1) show ?thesis by simp
qed

text \<open>
  C3 (as amended). A run without \<open>--append\<close> on the four profiles of the example, with
  any single-linkage routine, returns the rows (the id, then the codes at thresholds 0 to
  3) 1: 1 1 1 1, 2: 2 1 1 1, 3: 3 1 1 1 and 4: 4 4 4 1. Profile 3 is at distance 1 from
  profile 2, so its code at threshold 1 is 1.
\<close>

theorem example_code_rows:
  assumes "is_single_linkage (add_transpose (syn_dist ex_profiles))
      (linkage (add_transpose (syn_dist ex_profiles)))"
  shows "hierCC_full linkage ex_profiles =
      Inr [[1, 1, 1, 1, 1], [2, 2, 1, 1, 1], [3, 3, 1, 1, 1], [4, 4, 4, 4, 1]]"
proof -
  have 1: "2 \<le> length ex_profiles" by (simp add: ex_profiles_def)
  have 2: "\<forall>r\<in>set ex_profiles. length r = 3 + 1" by (simp add: ex_profiles_def)
  have 3: "\<forall>r\<in>set ex_profiles. 0 < hd r" by (simp add: ex_profiles_def)
  have 4: "distinct (map hd ex_profiles)" by (simp add: ex_profiles_def)
  have 5: "ex_profiles = order_full ex_profiles" by code_simp
  have 6: "is_single_linkage (add_transpose (syn_dist ex_profiles))
      (linkage_single (add_transpose (syn_dist ex_profiles)))"
    by code_simp
  have "hierCC_full linkage_single ex_profiles =
      Inr [[1, 1, 1, 1, 1], [2, 2, 1, 1, 1], [3, 3, 1, 1, 1], [4, 4, 4, 4, 1]]"
    by code_simp
  with full_run_determined [where dist = "add_transpose (syn_dist ex_profiles)"
      and linkage = linkage and linkage' = linkage_single, OF 1 2 3 4 5 refl assms 6]
  show ?thesis by simp
qed

theorem example_code_rows_witness:
  "hierCC_full (\<lambda>dist. [(0, 1, 1), (4, 2, 1), (5, 3, 3)]) ex_profiles =
      Inr [[1, 1, 1, 1, 1], [2, 2, 1, 1, 1], [3, 3, 1, 1, 1], [4, 4, 4, 4, 1]]"
proof -
  have "is_single_linkage (add_transpose (syn_dist ex_profiles)) [(0, 1, 1), (4, 2, 1), (5, 3, 3)]"
    by code_simp
  from example_code_rows [of "\<lambda>dist. [(0, 1, 1), (4, 2, 1), (5, 3, 3)]", OF this]
  show ?thesis .
qed

text \<open>
  The run on the example gives profile 3 the codes 3 1 1 1, not the 3 3 1 1 that the
  spec's example expects.
\<close>

theorem example_profile_3_differs:
  "hierCC_full linkage_single ex_profiles =
      Inr [[1, 1, 1, 1, 1], [2, 2, 1, 1, 1], [3, 3, 1, 1, 1], [4, 4, 4, 4, 1]]
   \<and> map tl [[1, 1, 1, 1, 1], [2, 2, 1, 1, 1], [3, 3, 1, 1, 1], [4, 4, 4, 4, 1]] \<noteq>
      [[1, 1, 1, 1], [2, 1, 1, 1], [3, 3, 1, 1], [4, 4, 4, 1::int]]"
  by code_simp

section \<open>Nested partitions\<close>

lemma set_tl_overwrite_from:
  "set (tl (overwrite_from (Suc m) r s)) \<subseteq> set (tl r) \<union> set (tl s)"
proof (cases r)
  case Nil
  have "set (tl (drop (Suc m) s)) \<subseteq> set (tl s)"
    by (metis drop_Suc set_drop_subset tl_drop)
  with Nil show ?thesis by (auto simp: overwrite_from_def)
next
  case (Cons x xs)
  have "set (drop (Suc m) s) \<subseteq> set (tl s)"
    by (simp add: drop_Suc set_drop_subset)
  with Cons set_take_subset [of m xs] show ?thesis
    by (auto simp: overwrite_from_def)
qed

lemma set_tl_subset: "set (tl xs) \<subseteq> set xs"
  by (cases xs) auto

lemma code_in_tl:
  "t + 1 < length r \<Longrightarrow> r ! (t + 1) \<in> set (tl r)"
  by (cases r) simp_all

lemma att_invD:
  assumes "att_inv L ids k res"
  shows "length res = length ids" "rect (L + 2) res"
    "\<forall>i<k. \<forall>j<k. \<forall>t1 t2.
            i < length ids \<and> j < length ids \<and> t1 < t2 \<and> t2 \<le> L
            \<and> code_at res i t1 = code_at res j t1 \<longrightarrow>
            code_at res i t2 = code_at res j t2"
    "\<forall>p. k \<le> p \<and> p < length ids \<longrightarrow> res ! p = replicate (L + 2) (ids ! p)"
    "\<forall>p. k \<le> p \<and> p < length ids \<longrightarrow>
            (\<forall>i<k. i < length ids \<longrightarrow> ids ! p \<notin> set (tl (res ! i)))"
proof -
  note c = assms [unfolded att_inv_def]
  show "length res = length ids" using c by (elim conjE)
  show "rect (L + 2) res" using c by (elim conjE)
  show "\<forall>i<k. \<forall>j<k. \<forall>t1 t2.
            i < length ids \<and> j < length ids \<and> t1 < t2 \<and> t2 \<le> L
            \<and> code_at res i t1 = code_at res j t1 \<longrightarrow>
            code_at res i t2 = code_at res j t2"
    using c by (elim conjE)
  show "\<forall>p. k \<le> p \<and> p < length ids \<longrightarrow> res ! p = replicate (L + 2) (ids ! p)"
    using c by (elim conjE)
  show "\<forall>p. k \<le> p \<and> p < length ids \<longrightarrow>
            (\<forall>i<k. i < length ids \<longrightarrow> ids ! p \<notin> set (tl (res ! i)))"
    using c by (elim conjE)
qed

lemma att_inv_step:
  assumes inv: "att_inv L ids k res" and di: "distinct ids" and k: "k < length ids"
    and a: "attach_row k d res = Inr res'"
  shows "att_inv L ids (Suc k) res'"
proof -
  let ?n = "length ids" and ?x = "ids ! k"
  note I = att_invD [OF inv]
  note lr = I(1) and re = I(2)
  have ne: "code_at res i t2 = code_at res j t2"
    if "i < k" "j < k" "t1 < t2" "t2 \<le> L" "code_at res i t1 = code_at res j t1" for i j t1 t2
  proof -
    from that(1,2) k have "i < ?n" "j < ?n" by simp_all
    with I(3) that show ?thesis by blast
  qed
  have own: "res ! p = replicate (L + 2) (ids ! p)" if "k \<le> p" "p < ?n" for p
    using I(4) that by simp
  have fr: "ids ! p \<notin> set (tl (res ! i))" if "k \<le> p" "p < ?n" "i < k" for p i
  proof -
    from that(3) k have "i < ?n" by simp
    with I(5) that show ?thesis by blast
  qed
  have len: "length (res ! i) = L + 2" if "i < ?n" for i
    using re lr that by (simp add: rect_nth)
  have below: "code_at res j t \<noteq> ?x" if "j < k" "t \<le> L" for j t
  proof -
    from that k len [of j] have "res ! j ! (t + 1) \<in> set (tl (res ! j))"
      by (intro code_in_tl) simp
    with fr [of k j] k that(1) show ?thesis by (auto simp: code_at_def)
  qed
  have ownc: "code_at res k t = ?x" if "t \<le> L" for t
  proof -
    have "replicate (L + 2) ?x ! (t + 1) = ?x" using that by (intro nth_replicate) simp
    with own [of k] k show ?thesis by (simp add: code_at_def)
  qed
  have owntl: "set (tl (res ! k)) \<subseteq> {?x}"
  proof -
    have "set (tl (replicate (L + 2) ?x)) \<subseteq> set (replicate (L + 2) ?x)"
      by (rule set_tl_subset)
    with own [of k] k show ?thesis by (auto simp del: replicate_Suc replicate.simps)
  qed
  obtain m i where rk: "\<And>t. t \<le> L \<Longrightarrow> code_at res' k t = (if t < m then ?x else code_at res i t)"
    and ik: "m \<le> L \<longrightarrow> i < k"
    and other: "\<And>j. j \<noteq> k \<Longrightarrow> res' ! j = res ! j"
    and lr': "length res' = ?n" and re': "rect (L + 2) res'"
    and tlk: "set (tl (res' ! k)) \<subseteq> insert ?x (if m \<le> L then set (tl (res ! i)) else {})"
  proof (cases "res' = res")
    case True
    show ?thesis
    proof (rule that [of "Suc L" 0])
      fix t assume "t \<le> L"
      with ownc [of t] True show "code_at res' k t = (if t < Suc L then ?x else code_at res 0 t)"
        by simp
    next
      show "set (tl (res' ! k)) \<subseteq> insert ?x (if Suc L \<le> L then set (tl (res ! 0)) else {})"
        using owntl True by auto
    qed (use True lr re in auto)
  next
    case False
    define i where "i = argmin (take k d)"
    define m where "m = d ! i"
    from attach_row_result [OF a] False have c: "0 < k" "take k d \<noteq> []"
      "res' = res[k := overwrite_from (m + 1) (res ! k) (res ! i)]"
      by (auto simp: i_def m_def)
    from argmin_less [OF c(2)] have ik: "i < k" by (simp add: i_def)
    have lk: "length (res ! k) = L + 2" "length (res ! i) = L + 2"
      using len k ik by simp_all
    have rowk: "res' ! k = overwrite_from (m + 1) (res ! k) (res ! i)"
      using c(3) k lr by simp
    show ?thesis
    proof (rule that [of m i])
      fix t assume t: "t \<le> L"
      with rowk lk have "res' ! k ! (t + 1) =
          (if t + 1 < m + 1 then res ! k ! (t + 1) else res ! i ! (t + 1))"
        by (simp add: nth_overwrite_from)
      with ownc [OF t] show "code_at res' k t = (if t < m then ?x else code_at res i t)"
        by (simp add: code_at_def)
    next
      show "m \<le> L \<longrightarrow> i < k" using ik by simp
    next
      fix j assume "j \<noteq> k"
      then show "res' ! j = res ! j" by (simp add: c(3))
    next
      show "length res' = ?n" using lr by (simp add: c(3))
    next
      show "rect (L + 2) res'"
        unfolding c(3) using re lk by (intro rect_update) (simp_all add: length_overwrite_from)
    next
      have "set (tl (res' ! k)) \<subseteq> set (tl (res ! k)) \<union> set (tl (res ! i))"
        unfolding rowk using set_tl_overwrite_from [of m] by simp
      moreover note owntl
      moreover have "m \<le> L \<or> res' ! k = res ! k"
      proof (cases "m \<le> L")
        case True
        then show ?thesis by simp
      next
        case False
        then have "length (res ! k) \<le> m + 1" "length (res ! i) \<le> m + 1"
          using lk by simp_all
        then show ?thesis by (simp add: rowk overwrite_from_def)
      qed
      ultimately show "set (tl (res' ! k)) \<subseteq> insert ?x (if m \<le> L then set (tl (res ! i)) else {})"
        by auto
    qed
  qed
  have code': "code_at res' j t = code_at res j t" if "j \<noteq> k" for j t
    using other [OF that] by (simp add: code_at_def)
  have pair: "code_at res' k t2 = code_at res j t2"
    if "j < k" "t1 < t2" "t2 \<le> L" "code_at res' k t1 = code_at res j t1" for j t1 t2
  proof -
    from that have t1: "t1 \<le> L" by simp
    have "\<not> t1 < m" using rk [OF t1] that(4) below [OF that(1) t1] by auto
    then have m: "m \<le> t1" by simp
    with rk [OF t1] that(4) have "code_at res i t1 = code_at res j t1" by simp
    moreover from m t1 ik have "i < k" by simp
    ultimately have "code_at res i t2 = code_at res j t2"
      using ne [of i j t1 t2] that by simp
    with rk [OF that(3)] m that(2) show ?thesis by simp
  qed
  have nest: "code_at res' a t2 = code_at res' b t2"
    if ab: "a < Suc k" "b < Suc k" and tt: "t1 < t2" "t2 \<le> L"
      and eq: "code_at res' a t1 = code_at res' b t1"
    for a b t1 t2
  proof -
    note that = ab tt eq
    consider "a = k" "b = k" | "a = k" "b < k" | "a < k" "b = k" | "a < k" "b < k"
      using ab by linarith
    then show ?thesis
    proof cases
      case 1
      then show ?thesis by simp
    next
      case 2
      with that pair [of b t1 t2] code' [of b] show ?thesis by simp
    next
      case 3
      with that pair [of a t1 t2] code' [of a] show ?thesis by simp
    next
      case 4
      with that ne [of a b t1 t2] code' [of a] code' [of b] show ?thesis by simp
    qed
  qed
  have own': "res' ! p = replicate (L + 2) (ids ! p)" if "Suc k \<le> p" "p < ?n" for p
    using other [of p] own [of p] that by simp
  have fr': "ids ! p \<notin> set (tl (res' ! i'))" if "Suc k \<le> p" "p < ?n" "i' < Suc k" for p i'
  proof (cases "i' = k")
    case True
    have "ids ! p \<noteq> ?x" using di that(1,2) k by (simp add: nth_eq_iff_index_eq)
    moreover have "ids ! p \<notin> set (tl (res ! i))" if "m \<le> L"
      using fr [of p i] ik that \<open>Suc k \<le> p\<close> \<open>p < ?n\<close> by simp
    ultimately show ?thesis using tlk True by (auto split: if_splits)
  next
    case False
    with that fr [of p i'] other [of i'] show ?thesis by simp
  qed
  show ?thesis
    unfolding att_inv_def using lr' re' nest own' fr' by blast
qed

lemma att_inv_nested:
  assumes "att_inv L ids k res" and "length ids \<le> k"
  shows "nested L res"
  unfolding nested_def
proof (intro allI impI)
  fix i j t1 t2
  assume "i < length res" "j < length res"
    "t1 < t2 \<and> t2 \<le> L \<and> code_at res i t1 = code_at res j t1"
  then have "i < k" "j < k" "i < length ids \<and> j < length ids \<and> t1 < t2 \<and> t2 \<le> L
      \<and> code_at res i t1 = code_at res j t1"
    using att_invD(1) [OF assms(1)] assms(2) by simp_all
  with att_invD(3) [OF assms(1)] show "code_at res i t2 = code_at res j t2"
    by blast
qed

lemma attach_nested:
  assumes "att_inv L ids k res" and "distinct ids" and "attach k ds res = Inr res'"
    and "length ids \<le> k + length ds"
  shows "nested L res' \<and> length res' = length ids \<and> rect (L + 2) res'"
  using assms(1,3,4)
proof (induction ds arbitrary: k res)
  case Nil
  then show ?case using att_inv_nested [of L ids k res] att_invD(1,2) [of L ids k res] by simp
next
  case (Cons d ds)
  note lr = att_invD(1) [OF Cons.prems(1)]
  show ?case
  proof (cases "k \<ge> length res")
    case True
    with Cons.prems lr show ?thesis
      using att_inv_nested [of L ids k res] att_invD(2) [of L ids k res] by simp
  next
    case False
    with Cons.prems(2) obtain res1 where
      a: "attach_row k d res = Inr res1" and r: "attach (Suc k) ds res1 = Inr res'"
      by (auto split: sum.splits)
    from False lr have "k < length ids" by simp
    from att_inv_step [OF Cons.prems(1) assms(2) this a]
    have "att_inv L ids (Suc k) res1" .
    from Cons.IH [OF this r] Cons.prems(3) show ?thesis by simp
  qed
qed

lemma start_split:
  assumes "i < length mat0"
  shows "(typed_of cls (hd (order_append cls mat0 ! i)) \<noteq> None) = (i < start_append cls mat0)"
proof
  assume "typed_of cls (hd (order_append cls mat0 ! i)) \<noteq> None"
  then obtain j where "typed_of cls (hd (order_append cls mat0 ! i)) = Some j" by auto
  from typed_below_start [OF assms this] show "i < start_append cls mat0" .
next
  assume s: "i < start_append cls mat0"
  let ?P = "\<lambda>r. typed_of cls (hd r) \<noteq> None"
  from s have ht: "has_typed cls" by (auto simp: start_append_def Let_def split: if_splits)
  with s have i: "i < length (filter ?P mat0)" by (simp add: start_append_def Let_def)
  from ht have "order_append cls mat0 ! i = (filter ?P mat0 @ filter (\<lambda>r. \<not> ?P r) mat0) ! i"
    by (simp add: order_append_def Let_def)
  also have "\<dots> = filter ?P mat0 ! i" using i by (simp add: nth_append)
  finally have "order_append cls mat0 ! i \<in> set (filter ?P mat0)"
    using i by (simp del: set_filter)
  then show "typed_of cls (hd (order_append cls mat0 ! i)) \<noteq> None" by simp
qed

lemma order_append_facts:
  "set (order_append cls mat0) = set mat0"
  "distinct (map hd mat0) \<Longrightarrow> distinct (map hd (order_append cls mat0))"
  by (auto simp: order_append_def Let_def distinct_map inj_on_def)

lemma init_res_row:
  assumes "i < length mat" and "length (mat ! i) = L + 1" and "0 \<le> hd (mat ! i)"
  shows "init_res mat ! i = replicate (L + 2) (hd (mat ! i))"
  using assms by (simp add: init_res_def Let_def)

lemma append_initial:
  assumes lt: "load_typed cls (typed_of cls) (init_res mat) = Inr res1"
    and rows: "\<forall>r\<in>set mat. length r = L + 1" and pos: "\<forall>r\<in>set mat. 0 \<le> hd r"
    and rc: "rect (L + 2) cls" and nc: "nested L cls"
    and cc: "\<forall>r\<in>set cls. \<forall>v\<in>set (tl r). typed_of cls v \<noteq> None"
    and sp: "\<forall>i<length mat. (typed_of cls (hd (mat ! i)) \<noteq> None) = (i < start)"
  shows "att_inv L (map hd mat) start res1"
proof -
  let ?n = "length mat"
  from load_typed_result [OF lt] have l1: "length res1 = ?n"
    and lr: "\<And>i. i < ?n \<Longrightarrow>
      (case typed_of cls (hd (init_res mat ! i)) of
        None \<Rightarrow> res1 ! i = init_res mat ! i
      | Some j \<Rightarrow>
          (length (cls ! j) = length (init_res mat ! i) \<and> res1 ! i = cls ! j)
          \<or> (length (cls ! j) = 1 \<and>
              res1 ! i = replicate (length (init_res mat ! i)) (hd (cls ! j))))"
    by (simp_all add: length_init_res)
  have ir: "init_res mat ! i = replicate (L + 2) (hd (mat ! i))" if "i < ?n" for i
    using that rows pos by (intro init_res_row) simp_all
  have new: "res1 ! i = replicate (L + 2) (hd (mat ! i))" if "i < ?n" "\<not> i < start" for i
  proof -
    from sp that have none: "typed_of cls (hd (mat ! i)) = None" by blast
    have h: "hd (init_res mat ! i) = hd (mat ! i)" using nth_init_res [OF that(1)] by simp
    from lr [OF that(1)] have "res1 ! i = init_res mat ! i"
      by (simp only: h none option.case)
    then show ?thesis by (simp only: ir [OF that(1)])
  qed
  have old: "\<exists>j<length cls. res1 ! i = cls ! j" if "i < ?n" "i < start" for i
  proof -
    from sp that obtain j where j: "typed_of cls (hd (mat ! i)) = Some j" by auto
    from typed_of_Some [OF j] have jl: "j < length cls" by simp
    with rc have lj: "length (cls ! j) = L + 2" by (simp add: rect_nth)
    have h: "hd (init_res mat ! i) = hd (mat ! i)" using nth_init_res [OF that(1)] by simp
    from lr [OF that(1)] have "(length (cls ! j) = length (init_res mat ! i) \<and> res1 ! i = cls ! j)
          \<or> (length (cls ! j) = 1 \<and>
              res1 ! i = replicate (length (init_res mat ! i)) (hd (cls ! j)))"
      by (simp only: h j option.case)
    with lj have "res1 ! i = cls ! j" by auto
    with jl show ?thesis by blast
  qed
  have 2: "rect (L + 2) res1"
    unfolding rect_def
  proof
    fix r assume "r \<in> set res1"
    then obtain i where i: "i < ?n" "r = res1 ! i" using l1 by (auto simp: in_set_conv_nth)
    show "length r = L + 2"
    proof (cases "i < start")
      case True
      from old [OF i(1) True] rc i(2) show ?thesis by (auto simp: rect_nth)
    next
      case False
      from new [OF i(1) False] i(2) show ?thesis by simp
    qed
  qed
  have 3: "code_at res1 i t2 = code_at res1 j t2"
    if "i < start" "j < start" "i < ?n" "j < ?n" "t1 < t2" "t2 \<le> L"
      "code_at res1 i t1 = code_at res1 j t1" for i j t1 t2
  proof -
    from old [OF that(3,1)] obtain a where a: "a < length cls" "res1 ! i = cls ! a" by blast
    from old [OF that(4,2)] obtain b where b: "b < length cls" "res1 ! j = cls ! b" by blast
    from that(7) a(2) b(2) have "code_at cls a t1 = code_at cls b t1" by (simp add: code_at_def)
    with nc a(1) b(1) that(5,6) have "code_at cls a t2 = code_at cls b t2"
      unfolding nested_def by blast
    with a(2) b(2) show ?thesis by (simp add: code_at_def)
  qed
  have 5: "hd (mat ! p) \<notin> set (tl (res1 ! i))"
    if "start \<le> p" "p < ?n" "i < start" "i < ?n" for p i
  proof
    assume m: "hd (mat ! p) \<in> set (tl (res1 ! i))"
    from old [OF that(4,3)] obtain a where a: "a < length cls" "res1 ! i = cls ! a" by blast
    with cc m have "typed_of cls (hd (mat ! p)) \<noteq> None" by (metis nth_mem)
    with sp that(1,2) show False by simp
  qed
  show ?thesis
    unfolding att_inv_def
  proof (intro conjI allI impI)
    show "length res1 = length (map hd mat)" using l1 by simp
    show "rect (L + 2) res1" by (rule 2)
  next
    fix i j t1 t2
    assume "i < start" "j < start"
      "i < length (map hd mat) \<and> j < length (map hd mat) \<and> t1 < t2 \<and> t2 \<le> L
        \<and> code_at res1 i t1 = code_at res1 j t1"
    then show "code_at res1 i t2 = code_at res1 j t2" using 3 [of i j t1 t2] by simp
  next
    fix p assume "start \<le> p \<and> p < length (map hd mat)"
    then show "res1 ! p = replicate (L + 2) (map hd mat ! p)" using new [of p] by simp
  next
    fix p i assume "start \<le> p \<and> p < length (map hd mat)" "i < start" "i < length (map hd mat)"
    then show "map hd mat ! p \<notin> set (tl (res1 ! i))" using 5 [of p i] by simp
  qed
qed

lemma code_at_set_ids:
  assumes "length res = length mat" and "i < length mat" and "res ! i \<noteq> []"
  shows "code_at (set_ids mat res) i t = code_at res i t"
proof (cases "res ! i")
  case Nil
  with assms show ?thesis by simp
next
  case (Cons x xs)
  with assms show ?thesis by (simp add: code_at_def set_ids_nth)
qed

lemma nested_set_ids:
  assumes "nested L res" and "length res = length mat" and "rect (L + 2) res"
  shows "nested L (set_ids mat res)"
  unfolding nested_def
proof (intro allI impI)
  fix i j t1 t2
  assume i: "i < length (set_ids mat res)" and j: "j < length (set_ids mat res)"
    and t: "t1 < t2 \<and> t2 \<le> L \<and> code_at (set_ids mat res) i t1 = code_at (set_ids mat res) j t1"
  from i j assms(2) have ij: "i < length mat" "j < length mat" by (simp_all add: set_ids_def)
  with assms(2,3) have "length (res ! i) = L + 2" "length (res ! j) = L + 2"
    by (simp_all add: rect_nth)
  then have ne: "res ! i \<noteq> []" "res ! j \<noteq> []" by auto
  have c: "code_at (set_ids mat res) i s = code_at res i s"
    "code_at (set_ids mat res) j s = code_at res j s" for s
    using code_at_set_ids [OF assms(2) ij(1) ne(1)] code_at_set_ids [OF assms(2) ij(2) ne(2)]
    by simp_all
  from t have t': "t1 < t2 \<and> t2 \<le> L \<and> code_at res i t1 = code_at res j t1"
    by (simp only: c)
  from ij assms(2) have "i < length res" "j < length res" by simp_all
  from assms(1) [unfolded nested_def, rule_format, OF this t']
  show "code_at (set_ids mat res) i t2 = code_at (set_ids mat res) j t2" by (simp only: c)
qed

lemma append_run_nested:
  assumes "hierCC_append cls mat0 = Inr res"
    and "\<forall>r\<in>set mat0. length r = L + 1" and "\<forall>r\<in>set mat0. 0 < hd r"
    and "distinct (map hd mat0)"
    and "rect (L + 2) cls" and "nested L cls"
    and "\<forall>r\<in>set cls. \<forall>v\<in>set (tl r). typed_of cls v \<noteq> None"
  shows "nested L res"
proof -
  define mat where "mat = order_append cls mat0"
  define start where "start = start_append cls mat0"
  have lm: "length mat = length mat0" by (simp add: mat_def length_order_append)
  have sm: "set mat = set mat0" by (simp add: mat_def order_append_facts)
  have di: "distinct (map hd mat)" using assms(4) by (simp add: mat_def order_append_facts)
  from assms(1) obtain res1 res2 where
    l: "load_typed cls (typed_of cls) (init_res mat) = Inr res1"
    and a: "attach start (asyn_dist mat start) res1 = Inr res2"
    and r: "res = set_ids mat res2"
    by (auto simp: hierCC_append_def Let_def mat_def start_def split: if_splits sum.splits)
  have rows: "\<forall>r\<in>set mat. length r = L + 1" and pos: "\<forall>r\<in>set mat. 0 \<le> hd r"
    using assms(2,3) sm by auto
  have sp: "\<forall>i<length mat. (typed_of cls (hd (mat ! i)) \<noteq> None) = (i < start)"
    using start_split [of _ mat0 cls] lm by (simp add: mat_def start_def)
  from append_initial [OF l rows pos assms(5,6,7) sp]
  have inv: "att_inv L (map hd mat) start res1" .
  have "start \<le> length mat"
    using lm by (simp add: start_def start_append_def Let_def)
  then have "length (map hd mat) \<le> start + length (asyn_dist mat start)"
    by (simp add: asyn_dist_def)
  from attach_nested [OF inv di a this]
  have "nested L res2" "length res2 = length mat" "rect (L + 2) res2" by simp_all
  then show ?thesis unfolding r by (rule nested_set_ids)
qed

lemma full_run_nested:
  assumes "2 \<le> length mat0" and "\<forall>r\<in>set mat0. length r = L + 1"
    and "\<forall>r\<in>set mat0. 0 < hd r" and "distinct (map hd mat0)"
    and "is_single_linkage (add_transpose (syn_dist (order_full mat0)))
      (linkage (add_transpose (syn_dist (order_full mat0))))"
    and "hierCC_full linkage mat0 = Inr res"
  shows "nested L res"
proof -
  define mat where "mat = order_full mat0"
  define dist where "dist = add_transpose (syn_dist mat)"
  from full_run_result [where linkage = linkage, OF assms(1-4) mat_def dist_def] assms(5,6)
  have lr: "length res = length mat"
    and codes: "\<forall>i<length mat. \<forall>t\<le>L.
      code_at res i t = Min ((!) (map hd mat) ` component dist t i)"
    unfolding mat_def dist_def by auto
  have di: "distinct (map hd mat)" using order_full_facts(3) [OF assms(4)] by (simp add: mat_def)
  have ld: "length dist = length (map hd mat)" by (simp add: dist_def length_dist)
  have sym: "\<forall>x<length dist. \<forall>y<length dist. dist ! x ! y = dist ! y ! x"
    using ld by (simp add: dist_def nth_dist allelic_distance_sym)
  show ?thesis
    unfolding nested_def
  proof (intro allI impI)
    fix i j t1 t2
    assume "i < length res" "j < length res"
      and t: "t1 < t2 \<and> t2 \<le> L \<and> code_at res i t1 = code_at res j t1"
    then have ij: "i < length (map hd mat)" "j < length (map hd mat)" using lr by simp_all
    from t have t1: "t1 \<le> L" "t1 \<le> t2" and t2: "t2 \<le> L" by simp_all
    have ci: "code_at res i s = Min ((!) (map hd mat) ` component dist s i)" if "s \<le> L" for s
      using codes ij(1) that by simp
    have cj: "code_at res j s = Min ((!) (map hd mat) ` component dist s j)" if "s \<le> L" for s
      using codes ij(2) that by simp
    from t have "code_at res i t1 = code_at res j t1" by simp
    then have "Min ((!) (map hd mat) ` component dist t1 i) =
        Min ((!) (map hd mat) ` component dist t1 j)"
      by (simp only: ci [OF t1(1)] cj [OF t1(1)])
    with component_min_eq_iff [OF di ld sym ij] have "(i, j) \<in> (near dist t1)\<^sup>*" by simp
    from connected_mono [OF t1(2) this] component_min_eq_iff [OF di ld sym ij]
    have "Min ((!) (map hd mat) ` component dist t2 i) =
        Min ((!) (map hd mat) ` component dist t2 j)"
      by simp
    then show "code_at res i t2 = code_at res j t2"
      by (simp only: ci [OF t2] cj [OF t2])
  qed
qed

text \<open>
  C2. The partitions of the matrix returned are nested (rows that share their code at
  a threshold share it at every greater threshold up to \<open>L\<close>): in a run without
  \<open>--append\<close> on profiles with distinct positive identifiers and a single-linkage
  routine; and in a run with \<open>--append\<close> on such profiles, when the snapshot has a
  column for every threshold, is nested itself, and every code it holds is typed in it.
\<close>

theorem partitions_are_nested:
  "(2 \<le> length mat0 \<and> (\<forall>r\<in>set mat0. length r = L + 1) \<and> (\<forall>r\<in>set mat0. 0 < hd r)
      \<and> distinct (map hd mat0)
      \<and> is_single_linkage (add_transpose (syn_dist (order_full mat0)))
            (linkage (add_transpose (syn_dist (order_full mat0))))
      \<and> hierCC_full linkage mat0 = Inr res
    \<longrightarrow> nested L res)
   \<and> ((\<forall>r\<in>set mat1. length r = L + 1) \<and> (\<forall>r\<in>set mat1. 0 < hd r)
      \<and> distinct (map hd mat1)
      \<and> rect (L + 2) cls \<and> nested L cls
      \<and> (\<forall>r\<in>set cls. \<forall>v\<in>set (tl r). typed_of cls v \<noteq> None)
      \<and> hierCC_append cls mat1 = Inr res'
    \<longrightarrow> nested L res')"
proof (intro conjI impI)
  assume "2 \<le> length mat0 \<and> (\<forall>r\<in>set mat0. length r = L + 1) \<and> (\<forall>r\<in>set mat0. 0 < hd r)
      \<and> distinct (map hd mat0)
      \<and> is_single_linkage (add_transpose (syn_dist (order_full mat0)))
            (linkage (add_transpose (syn_dist (order_full mat0))))
      \<and> hierCC_full linkage mat0 = Inr res"
  then show "nested L res"
    by (elim conjE) (rule full_run_nested [where linkage = linkage])
next
  assume "(\<forall>r\<in>set mat1. length r = L + 1) \<and> (\<forall>r\<in>set mat1. 0 < hd r)
      \<and> distinct (map hd mat1)
      \<and> rect (L + 2) cls \<and> nested L cls
      \<and> (\<forall>r\<in>set cls. \<forall>v\<in>set (tl r). typed_of cls v \<noteq> None)
      \<and> hierCC_append cls mat1 = Inr res'"
  then show "nested L res'"
    by (elim conjE) (rule append_run_nested)
qed

theorem partitions_are_nested_witness:
  "nested 3 ex_snapshot
   \<and> nested 3 [[1, 1, 1, 1, 1], [2, 2, 1, 1, 1], [3, 3, 1, 1, 1], [4, 4, 4, 4, 1], [5, 5, 1, 1, 1]]"
proof -
  have 1: "2 \<le> length ex_profiles" by (simp add: ex_profiles_def)
  have 2: "\<forall>r\<in>set ex_profiles. length r = 3 + 1" by (simp add: ex_profiles_def)
  have 3: "\<forall>r\<in>set ex_profiles. 0 < hd r" by (simp add: ex_profiles_def)
  have 4: "distinct (map hd ex_profiles)" by (simp add: ex_profiles_def)
  have 5: "is_single_linkage (add_transpose (syn_dist (order_full ex_profiles)))
      (linkage_single (add_transpose (syn_dist (order_full ex_profiles))))"
    by code_simp
  have 6: "hierCC_full linkage_single ex_profiles = Inr ex_snapshot"
    by code_simp
  from partitions_are_nested [where linkage = linkage_single and ?mat0.0 = ex_profiles
      and L = 3 and res = ex_snapshot, THEN conjunct1] 1 2 3 4 5 6
  have n: "nested 3 ex_snapshot" by blast
  have 7: "\<forall>r\<in>set (ex_profiles @ [[5, 1, 3, 1]]). length r = 3 + 1"
    by (simp add: ex_profiles_def)
  have 8: "\<forall>r\<in>set (ex_profiles @ [[5, 1, 3, 1]]). 0 < hd r" by (simp add: ex_profiles_def)
  have 9: "distinct (map hd (ex_profiles @ [[5, 1, 3, 1]]))" by (simp add: ex_profiles_def)
  have 10: "rect (3 + 2) ex_snapshot" by (simp add: rect_def ex_snapshot_def)
  have 11: "\<forall>r\<in>set ex_snapshot. \<forall>v\<in>set (tl r). typed_of ex_snapshot v \<noteq> None"
    by code_simp
  have 12: "hierCC_append ex_snapshot (ex_profiles @ [[5, 1, 3, 1]]) =
      Inr [[1, 1, 1, 1, 1], [2, 2, 1, 1, 1], [3, 3, 1, 1, 1], [4, 4, 4, 4, 1], [5, 5, 1, 1, 1]]"
    by code_simp
  from partitions_are_nested [where ?mat1.0 = "ex_profiles @ [[5, 1, 3, 1]]" and L = 3
      and cls = ex_snapshot
      and res' = "[[1, 1, 1, 1, 1], [2, 2, 1, 1, 1], [3, 3, 1, 1, 1], [4, 4, 4, 4, 1], [5, 5, 1, 1, 1]]",
      THEN conjunct2] 7 8 9 10 n 11 12
  have "nested 3 [[1, 1, 1, 1, 1], [2, 2, 1, 1, 1], [3, 3, 1, 1, 1], [4, 4, 4, 4, 1], [5, 5, 1, 1, 1]]"
    by blast
  with n show ?thesis by simp
qed

section \<open>The conversion of the cells\<close>

lemma astype_int_converts:
  "\<forall>c\<in>set cs. \<exists>s v. c = Some s \<and> conv s = Some v \<and> int64 v \<Longrightarrow>
   astype_int conv cs = Inr (map (\<lambda>c. the (conv (the c))) cs)"
  by (induction cs) auto

lemma astype_rows_converts:
  "\<forall>r\<in>set rs. \<forall>c\<in>set r. \<exists>s v. c = Some s \<and> conv s = Some v \<and> int64 v \<Longrightarrow>
   astype_rows conv rs = Inr (map (map (\<lambda>c. the (conv (the c)))) rs)"
  by (induction rs) (simp_all add: astype_int_converts)

lemma astype_int_error:
  "astype_int conv cs = Inl e \<Longrightarrow> e = ValueError \<or> e = OverflowError"
  by (induction cs arbitrary: e) (auto split: option.splits sum.splits if_splits)

lemma astype_int_missing: "None \<in> set cs \<Longrightarrow> \<exists>e. astype_int conv cs = Inl e"
proof (induction cs)
  case Nil
  then show ?case by simp
next
  case (Cons c cs)
  show ?case
  proof (cases c)
    case None
    then show ?thesis by simp
  next
    case (Some s)
    with Cons obtain e where "astype_int conv cs = Inl e" by auto
    with Some show ?thesis by (simp split: option.splits)
  qed
qed

lemma astype_rows_error:
  "astype_rows conv rs = Inl e \<Longrightarrow> e = ValueError \<or> e = OverflowError"
  by (induction rs arbitrary: e) (auto split: sum.splits dest: astype_int_error)

lemma astype_rows_missing:
  "r \<in> set rs \<Longrightarrow> None \<in> set r \<Longrightarrow> \<exists>e. astype_rows conv rs = Inl e"
proof (induction rs)
  case Nil
  then show ?case by simp
next
  case (Cons x xs)
  show ?case
  proof (cases "astype_int conv x")
    case (Inl e)
    then show ?thesis by simp
  next
    case (Inr v)
    with Cons.prems astype_int_missing [of x conv] have "r \<in> set xs" by auto
    with Cons obtain e where "astype_rows conv xs = Inl e" by auto
    with Inr show ?thesis by simp
  qed
qed

lemma length_le_transpose: "r \<in> set m \<Longrightarrow> length r \<le> length (transpose m)"
  unfolding length_transpose by (induction m) auto

lemma set_concat_transpose: "set (concat (transpose m)) = set (concat m)"
proof (intro equalityI subsetI)
  fix x assume "x \<in> set (concat (transpose m))"
  then obtain c where c: "c \<in> set (transpose m)" "x \<in> set c" by auto
  then obtain j where j: "j < length (transpose m)" "c = transpose m ! j"
    by (auto simp: in_set_conv_nth)
  with c(2) nth_transpose [OF j(1)] obtain r where "r \<in> set m" "j < length r" "x = r ! j"
    by auto
  then show "x \<in> set (concat m)" by (auto intro!: bexI [of _ r])
next
  fix x assume "x \<in> set (concat m)"
  then obtain r where r: "r \<in> set m" "x \<in> set r" by auto
  then obtain j where j: "j < length r" "x = r ! j" by (auto simp: in_set_conv_nth)
  with length_le_transpose [OF r(1)] have jt: "j < length (transpose m)" by simp
  from r(1) j have "x \<in> set (transpose m ! j)"
    unfolding nth_transpose [OF jt] by auto
  moreover from jt have "transpose m ! j \<in> set (transpose m)" by (rule nth_mem)
  ultimately show "x \<in> set (concat (transpose m))" by auto
qed

lemma transpose_columns:
  assumes "\<forall>r\<in>set m. length r = k" and "0 < k"
  shows "transpose (map (map f) (transpose m)) = map (map f) m"
proof -
  have "map length m = replicate (length m) k"
    using assms(1) by (simp add: map_replicate_const [symmetric] cong: map_cong)
  then have "sorted (rev (map length m))" by (simp add: sorted_replicate)
  from transpose_transpose [OF this] have "transpose (transpose m) = takeWhile (\<lambda>x. x \<noteq> []) m" .
  also have "\<dots> = m"
    using assms by (intro takeWhile_eq_all_conv [THEN iffD2]) auto
  finally show ?thesis by (simp add: transpose_map_map)
qed

lemma astype_converts:
  assumes "\<forall>r\<in>set m. length r = k" and "0 < k"
    and "\<forall>r\<in>set m. \<forall>c\<in>set r. \<exists>s v. c = Some s \<and> conv s = Some v \<and> int64 v"
  shows "astype conv m = Inr (map (map (\<lambda>c. the (conv (the c)))) m)"
proof -
  have "\<forall>r\<in>set (transpose m). \<forall>c\<in>set r. \<exists>s v. c = Some s \<and> conv s = Some v \<and> int64 v"
  proof (intro ballI)
    fix r c assume "r \<in> set (transpose m)" "c \<in> set r"
    then have "c \<in> set (concat (transpose m))" by auto
    then have "c \<in> set (concat m)" by (simp only: set_concat_transpose)
    with assms(3) show "\<exists>s v. c = Some s \<and> conv s = Some v \<and> int64 v" by auto
  qed
  from astype_rows_converts [OF this] transpose_columns [OF assms(1,2)]
  show ?thesis by (simp add: astype_def)
qed

lemma astype_error: "astype conv m = Inl e \<Longrightarrow> e = ValueError \<or> e = OverflowError"
  by (auto simp: astype_def split: sum.splits dest: astype_rows_error)

lemma astype_missing:
  assumes "r \<in> set m" and "None \<in> set r"
  shows "\<exists>e. astype conv m = Inl e"
proof -
  from assms have "None \<in> set (concat m)" by auto
  then have "None \<in> set (concat (transpose m))" by (simp only: set_concat_transpose)
  then obtain c where "c \<in> set (transpose m)" "None \<in> set c" by auto
  from astype_rows_missing [OF this, of conv] show ?thesis by (auto simp: astype_def)
qed

lemma length_allele_columns:
  "allele_columns i header = Inr cols \<Longrightarrow> length cols = length header"
  by (induction i header arbitrary: cols rule: allele_columns.induct)
    (auto split: sum.splits option.splits if_splits)

lemma hd_allele_columns:
  "allele_columns 0 header = Inr cols \<Longrightarrow> header \<noteq> [] \<Longrightarrow> \<exists>bs. cols = True # bs"
  by (cases header) (auto split: sum.splits)

lemma length_select_cols:
  assumes "length bs = length row"
  shows "length (select_cols bs row) = length (filter (\<lambda>b. b) bs)"
proof -
  have "filter (\<lambda>b. b) bs = filter (\<lambda>b. b) (map fst (zip bs row))"
    using assms by simp
  also have "\<dots> = map fst (filter fst (zip bs row))"
    by (simp add: filter_map comp_def)
  finally show ?thesis by (simp add: select_cols_def)
qed

section \<open>A run returns whether or not identifiers collide\<close>

lemma index_of_mem:
  assumes "s \<in> set ids"
  shows "\<exists>i<length ids. index_of ids s = Some i"
proof -
  have "s \<in> fst ` set (rev (zip ids [0..<length ids]))"
    using assms by (simp add: image_iff) (metis in_set_conv_nth fst_conv length_upt length_zip min.idem minus_nat.diff_0 nth_zip)
  then obtain i where "index_of ids s = Some i"
    unfolding index_of_def by (metis map_of_eq_None_iff not_None_eq)
  with index_of_Some [OF this] show ?thesis by blast
qed

lemma encode_returns:
  assumes "single_linkage dist n_id owner slc"
    and "length owner = length ids" and "length res = length ids" and "rect w res"
    and "length descendents = 2 * length ids - 1"
    and "\<forall>c\<in>set owner. c < n_id" and "n_id + card (set owner) = 2 * length ids"
    and "\<forall>x<length ids. \<exists>xs. descendents ! (owner ! x) = Some xs \<and> xs \<noteq> [] \<and> set xs \<subseteq> set ids"
  shows "\<exists>descendents' res'.
      encode (index_of ids) n_id slc (descendents, res) = Inr (descendents', res')
      \<and> length res' = length ids \<and> rect w res'"
  using assms
proof (induction slc arbitrary: n_id owner descendents res)
  case Nil
  then show ?case by simp
next
  case (Cons c slc)
  obtain a b d where c: "c = (a, b, d)" by (cases c) auto
  from Cons.prems(1) c obtain x0 y0 where ab: "a \<noteq> b"
    and x0: "x0 < length owner" "owner ! x0 = a" and y0: "y0 < length owner" "owner ! y0 = b"
    and rest: "single_linkage dist (Suc n_id) (join_nodes a b n_id owner) slc"
    by auto
  have ain: "a \<in> set owner" "b \<in> set owner" using x0 y0 by (metis nth_mem)+
  have nid: "n_id \<notin> set owner" using Cons.prems(6) by auto
  have "card {a, b} \<le> card (set owner)" using ain by (intro card_mono) auto
  with ab have card2: "2 \<le> card (set owner)" by simp
  have nl: "n_id < length descendents" "a < length descendents" "b < length descendents"
    using Cons.prems(5,6,7) card2 ain by force+
  from Cons.prems(2,8) x0 obtain xa where xa: "descendents ! a = Some xa" "xa \<noteq> []"
    "set xa \<subseteq> set ids"
    by metis
  from Cons.prems(2,8) y0 obtain xb where xb: "descendents ! b = Some xb" "xb \<noteq> []"
    "set xb \<subseteq> set ids"
    by metis
  define anchor where "anchor = (if hd xa \<le> hd xb then xa else xb)"
  define absorbed where "absorbed = (if hd xa \<le> hd xb then xb else xa)"
  have an: "anchor \<noteq> []" "set anchor \<subseteq> set ids" "absorbed \<noteq> []" "set absorbed \<subseteq> set ids"
    using xa xb by (auto simp: anchor_def absorbed_def)
  have "min_list anchor \<in> set anchor"
    using min_list_Min [OF an(1)] Min_in [of "set anchor"] an(1) by simp
  with an(2) index_of_mem [of "min_list anchor" ids] Cons.prems(3)
  obtain ai where ai: "index_of ids (min_list anchor) = Some ai" "ai < length res" by auto
  have idx: "\<forall>tgt\<in>set absorbed. \<exists>i<length res. index_of ids tgt = Some i"
    using an(4) index_of_mem [of _ ids] Cons.prems(3) by auto
  from merge_event_result [OF nl(2,3,1) xa(1) xb(1) xa(2) xb(2) anchor_def absorbed_def ai idx
      Cons.prems(4), where d = d]
  obtain res' where me: "merge_event (index_of ids) n_id (a, b, d) (descendents, res) =
      Inr (descendents[n_id := Some (anchor @ absorbed)], res')"
    and lr': "length res' = length res" and re': "rect w res'"
    by auto
  define owner' where "owner' = join_nodes a b n_id owner"
  define descendents' where "descendents' = descendents[n_id := Some (anchor @ absorbed)]"
  have so: "set owner' = insert n_id (set owner - {a, b})"
    using ain by (auto simp: owner'_def join_nodes_def)
  have 2: "length owner' = length ids"
    using Cons.prems(2) by (simp add: owner'_def join_nodes_def)
  have 6: "\<forall>c\<in>set owner'. c < Suc n_id"
    using Cons.prems(6) so by auto
  have "card (set owner - {a, b}) = card (set owner) - 2"
    using ain ab by (simp add: card_Diff_subset)
  with so nid card2 have 7: "Suc n_id + card (set owner') = 2 * length ids"
    using Cons.prems(7) by simp
  have 8: "\<exists>xs. descendents' ! (owner' ! x) = Some xs \<and> xs \<noteq> [] \<and> set xs \<subseteq> set ids"
    if x: "x < length ids" for x
  proof (cases "owner ! x = a \<or> owner ! x = b")
    case True
    with x Cons.prems(2) have "owner' ! x = n_id" by (simp add: owner'_def join_nodes_def)
    with nl(1) an show ?thesis by (simp add: descendents'_def)
  next
    case False
    with x Cons.prems(2) have o: "owner' ! x = owner ! x" by (simp add: owner'_def join_nodes_def)
    from x Cons.prems(2) have "owner ! x \<in> set owner" by simp
    with nid have "owner ! x \<noteq> n_id" by auto
    with o Cons.prems(8) x show ?thesis by (simp add: descendents'_def)
  qed
  have 5: "length descendents' = 2 * length ids - 1"
    using Cons.prems(5) by (simp add: descendents'_def)
  from Cons.IH [OF rest [folded owner'_def] 2 _ re' 5 6 7] lr' Cons.prems(3) 8
  obtain ds r where "encode (index_of ids) (Suc n_id) slc (descendents', res') = Inr (ds, r)"
    "length r = length ids" "rect w r"
    by auto
  with me c show ?case by (simp add: descendents'_def)
qed

lemma attach_returns:
  assumes "rect w res" and "\<forall>d\<in>set ds. length d = length res \<and> (\<forall>v\<in>set d. v + 1 < w)"
  shows "\<exists>res'. attach k ds res = Inr res' \<and> length res' = length res \<and> rect w res'"
  using assms
proof (induction ds arbitrary: k res)
  case Nil
  then show ?case by simp
next
  case (Cons d ds)
  show ?case
  proof (cases "k \<ge> length res")
    case True
    with Cons.prems show ?thesis by simp
  next
    case False
    then have k: "k < length res" by simp
    from Cons.prems(2) have ld: "length d = length res" and vs: "\<forall>v\<in>set d. v + 1 < w"
      by auto
    have "\<exists>res1. attach_row k d res = Inr res1 \<and> length res1 = length res \<and> rect w res1"
    proof (cases "k = 0")
      case True
      with Cons.prems(1) show ?thesis by (simp add: attach_row_def)
    next
      case False
      with k ld have tk: "take k d \<noteq> []" by auto
      define i where "i = argmin (take k d)"
      from argmin_less [OF tk] k ld have ik: "i < k" by (simp add: i_def)
      with k ld have "d ! i \<in> set d" by simp
      with vs have m: "d ! i + 1 < w" by blast
      have rows: "length (res ! k) = w" "length (res ! i) = w"
        using Cons.prems(1) k ik by (simp_all add: rect_nth)
      have "rect w (res[k := overwrite_from (d ! i + 1) (res ! k) (res ! i)])"
        using Cons.prems(1) rows by (intro rect_update) (simp_all add: length_overwrite_from)
      with False tk k m rows Cons.prems(1) show ?thesis
        by (simp add: attach_row_def Let_def i_def [symmetric])
    qed
    then obtain res1 where r1: "attach_row k d res = Inr res1" "length res1 = length res"
      "rect w res1"
      by blast
    from Cons.IH [OF r1(3), of "Suc k"] Cons.prems(2) r1(2)
    obtain res' where "attach (Suc k) ds res1 = Inr res'" "length res' = length res1" "rect w res'"
      by auto
    with r1 False show ?thesis by simp
  qed
qed

lemma full_run_returns:
  assumes "2 \<le> length mat0" and "\<forall>r\<in>set mat0. length r = L + 1"
    and "is_single_linkage (add_transpose (syn_dist (order_full mat0)))
           (linkage (add_transpose (syn_dist (order_full mat0))))"
  shows "\<exists>res. hierCC_full linkage mat0 = Inr res \<and> length res = length mat0"
proof -
  define mat where "mat = order_full mat0"
  define dist where "dist = add_transpose (syn_dist mat)"
  let ?n = "length mat" and ?ids = "map hd mat"
  have sm: "set mat = set mat0" and lm: "?n = length mat0"
    using order_full_facts(1,2) [of mat0] by (simp_all add: mat_def)
  have rows: "\<forall>r\<in>set mat. length r = L + 1" using assms(2) sm by simp
  have sl: "single_linkage dist ?n [0..<?n] (linkage dist)"
    using assms(3) by (simp add: is_single_linkage_def dist_def mat_def length_dist)
  have 3: "length (init_res mat) = length ?ids" by (simp add: length_init_res)
  have 4: "rect (L + 2) (init_res mat)"
    using rows by (auto simp: rect_def init_res_def Let_def)
  have 5: "length (initial_descendents mat) = 2 * length ?ids - 1"
    using lm assms(1) by (simp add: initial_descendents_def)
  have 7: "?n + card (set [0..<?n]) = 2 * length ?ids" by simp
  have 8: "\<forall>x<length ?ids. \<exists>xs. initial_descendents mat ! ([0..<?n] ! x) = Some xs \<and> xs \<noteq> []
      \<and> set xs \<subseteq> set ?ids"
    by (simp add: initial_descendents_def nth_append)
  from encode_returns [OF sl _ 3 4 5 _ 7 8]
  obtain ds res where e: "encode (index_of ?ids) ?n (linkage dist) (initial_descendents mat, init_res mat)
      = Inr (ds, res)" and lr: "length res = ?n" and re: "rect (L + 2) res"
    by auto
  have ef: "encode_full linkage mat = Inr (ds, res)"
    using e by (simp add: encode_full_def dist_def)
  have "\<forall>d\<in>set (asyn_dist mat 0). length d = length res \<and> (\<forall>v\<in>set d. v + 1 < L + 2)"
  proof (intro ballI conjI)
    fix d assume "d \<in> set (asyn_dist mat 0)"
    then obtain i where i: "i < ?n" "d = map (\<lambda>j. allelic_distance (mat ! i) (mat ! j)) [0..<?n]"
      by (auto simp: asyn_dist_def)
    then show "length d = length res" using lr by simp
    fix v assume "v \<in> set d"
    with i obtain j where "v = allelic_distance (mat ! i) (mat ! j)" by auto
    moreover have "length (mat ! i) = L + 1" using rows i(1) by simp
    ultimately show "v + 1 < L + 2"
      using allelic_distance_le [of "mat ! i" "mat ! j"] by simp
  qed
  from attach_returns [OF re this, of 0]
  obtain res' where a: "attach 0 (asyn_dist mat 0) res = Inr res'" "length res' = length res"
    by blast
  have "[] \<notin> set mat" using rows by auto
  with ef a assms(1) lm have "hierCC_full linkage mat0 = Inr (set_ids mat res')"
    by (simp add: hierCC_full_def Let_def mat_def [symmetric])
  moreover have "length (set_ids mat res') = length mat0"
    using a(2) lr lm by (simp add: set_ids_def)
  ultimately show ?thesis by blast
qed

section \<open>Loading makes no check of identifiers\<close>

text \<open>
  C7 (as amended). Take a profile table as the reader returns it: rectangular, with a
  header of at least one cell whose cells after the first are present. Loading fails,
  with the ValueError or the OverflowError of the conversion to integers, when a kept
  column of some data row holds a missing cell (which is what the reader pads a line
  shorter than the table with), and the run ends with that error. Loading makes no
  check of the identifiers: whenever every kept cell converts to a 64-bit integer it
  returns every data row with a positive identifier, in file order, rows with
  colliding identifiers included, and the run is the clustering of these rows. When
  moreover at least two rows are loaded and the library routine returns a
  single-linkage dendrogram for their distances, the run without \<open>--append\<close> returns a
  code matrix with a row for each of them.
\<close>

theorem loading_checks_cells_not_identifiers:
  fixes conv linkage header rows cols old
  defines "loaded \<equiv> filter (\<lambda>r. hd r > 0)
      (map (\<lambda>r. map (\<lambda>c. the (conv (the c))) (select_cols cols r)) rows)"
  defines "dist \<equiv> add_transpose (syn_dist (order_full loaded))"
  assumes "allele_columns 0 header = Inr cols" and "header \<noteq> []"
    and "\<forall>r\<in>set rows. length r = length header"
  shows "((\<exists>r\<in>set rows. None \<in> set (select_cols cols r)) \<longrightarrow>
            (\<exists>e. (e = ValueError \<or> e = OverflowError)
               \<and> prepare_mat conv (header # rows) = Inl e
               \<and> hierCC conv linkage (header # rows) old = Inl e))
       \<and> ((\<forall>r\<in>set rows. \<forall>c\<in>set (select_cols cols r).
              \<exists>s v. c = Some s \<and> conv s = Some v \<and> int64 v) \<longrightarrow>
            prepare_mat conv (header # rows) = Inr loaded
            \<and> hierCC conv linkage (header # rows) old =
                (case old of
                   None \<Rightarrow> hierCC_full linkage loaded
                 | Some cls \<Rightarrow> hierCC_append cls loaded)
            \<and> (2 \<le> length loaded \<and> is_single_linkage dist (linkage dist) \<longrightarrow>
                (\<exists>res. hierCC conv linkage (header # rows) None = Inr res
                   \<and> length res = length loaded)))"
proof (intro conjI impI)
  assume "\<exists>r\<in>set rows. None \<in> set (select_cols cols r)"
  then obtain r where "r \<in> set rows" "None \<in> set (select_cols cols r)" by blast
  then have "\<exists>e. astype conv (map (select_cols cols) rows) = Inl e"
    by (intro astype_missing [of "select_cols cols r"]) auto
  then obtain e where e: "astype conv (map (select_cols cols) rows) = Inl e" by blast
  with assms(3,4) have p: "prepare_mat conv (header # rows) = Inl e"
    by (simp add: prepare_mat_def)
  then have "hierCC conv linkage (header # rows) old = Inl e"
    by (simp add: hierCC_def)
  with p astype_error [OF e]
  show "\<exists>e. (e = ValueError \<or> e = OverflowError)
      \<and> prepare_mat conv (header # rows) = Inl e
      \<and> hierCC conv linkage (header # rows) old = Inl e"
    by blast
next
  assume cv: "\<forall>r\<in>set rows. \<forall>c\<in>set (select_cols cols r).
      \<exists>s v. c = Some s \<and> conv s = Some v \<and> int64 v"
  from hd_allele_columns [OF assms(3,4)] obtain bs where bs: "cols = True # bs" by blast
  define L where "L = length (filter (\<lambda>b. b) bs)"
  have width: "length (select_cols cols r) = L + 1" if "r \<in> set rows" for r
  proof -
    from that assms(5) length_allele_columns [OF assms(3)] have "length cols = length r" by simp
    from length_select_cols [OF this] show ?thesis by (simp add: bs L_def)
  qed
  have "astype conv (map (select_cols cols) rows) =
      Inr (map (map (\<lambda>c. the (conv (the c)))) (map (select_cols cols) rows))"
    using width cv by (intro astype_converts [where k = "L + 1"]) auto
  with assms(3,4) show p: "prepare_mat conv (header # rows) = Inr loaded"
    by (simp add: prepare_mat_def comp_def loaded_def)
  then show h: "hierCC conv linkage (header # rows) old =
      (case old of
         None \<Rightarrow> hierCC_full linkage loaded
       | Some cls \<Rightarrow> hierCC_append cls loaded)"
    by (simp add: hierCC_def)
  assume a: "2 \<le> length loaded \<and> is_single_linkage dist (linkage dist)"
  have rows: "\<forall>r\<in>set loaded. length r = L + 1"
    using width by (auto simp: loaded_def)
  from a have "2 \<le> length loaded"
    and "is_single_linkage (add_transpose (syn_dist (order_full loaded)))
      (linkage (add_transpose (syn_dist (order_full loaded))))"
    by (simp_all add: dist_def)
  from full_run_returns [where linkage = linkage, OF this(1) rows this(2)] p
  show "\<exists>res. hierCC conv linkage (header # rows) None = Inr res \<and> length res = length loaded"
    by (simp add: hierCC_def)
qed

theorem loading_checks_cells_not_identifiers_witness:
  "prepare_mat decimal
     [[Some ''ST_id'', Some ''gene1'', Some ''gene2''],
      [Some ''7'', Some ''1'', Some ''1''],
      [Some ''7'', Some ''1'', Some ''2'']] = Inr [[7, 1, 1], [7, 1, 2]]
   \<and> hierCC decimal linkage_single
     [[Some ''ST_id'', Some ''gene1'', Some ''gene2''],
      [Some ''7'', Some ''1'', Some ''1''],
      [Some ''7'', Some ''1'', Some ''2'']] (Some ex_snapshot) =
     hierCC_append ex_snapshot [[7, 1, 1], [7, 1, 2]]
   \<and> (\<exists>res. hierCC decimal linkage_single
     [[Some ''ST_id'', Some ''gene1'', Some ''gene2''],
      [Some ''7'', Some ''1'', Some ''1''],
      [Some ''7'', Some ''1'', Some ''2'']] None = Inr res \<and> length res = 2)
   \<and> (\<exists>e. (e = ValueError \<or> e = OverflowError)
     \<and> prepare_mat decimal
       [[Some ''ST_id'', Some ''gene1'', Some ''gene2''],
        [Some ''7'', Some ''1'', None]] = Inl e
     \<and> hierCC decimal linkage_single
       [[Some ''ST_id'', Some ''gene1'', Some ''gene2''],
        [Some ''7'', Some ''1'', None]] None = Inl e)"
proof -
  let ?header = "[Some ''ST_id'', Some ''gene1'', Some ''gene2'']"
  let ?rows = "[[Some ''7'', Some ''1'', Some ''1''], [Some ''7'', Some ''1'', Some ''2'']]"
  let ?short = "[[Some ''7'', Some ''1'', None]]"
  have h: "allele_columns 0 ?header = Inr [True, True, True]" by code_simp
  have n: "?header \<noteq> []" by simp
  have c: "\<forall>r\<in>set ?rows. \<forall>c\<in>set (select_cols [True, True, True] r).
      \<exists>s v. c = Some s \<and> decimal s = Some v \<and> int64 v"
  proof -
    have "decimal ''7'' = Some 7" "decimal ''1'' = Some 1" "decimal ''2'' = Some 2"
      by code_simp+
    then show ?thesis by (auto simp: select_cols_def int64_def)
  qed
  have m: "\<exists>r\<in>set ?short. None \<in> set (select_cols [True, True, True] r)"
    by (simp add: select_cols_def)
  have v: "filter (\<lambda>r. hd r > 0)
      (map (\<lambda>r. map (\<lambda>c. the (decimal (the c))) (select_cols [True, True, True] r)) ?rows) =
      [[7, 1, 1], [7, 1, 2]]"
    by code_simp
  have l: "\<forall>r\<in>set ?rows. length r = length ?header" by simp
  have s: "is_single_linkage (add_transpose (syn_dist (order_full [[7, 1, 1], [7, 1, 2]])))
      (linkage_single (add_transpose (syn_dist (order_full [[7, 1, 1], [7, 1, 2]]))))"
    by code_simp
  have ls: "\<forall>r\<in>set ?short. length r = length ?header" by simp
  note t = loading_checks_cells_not_identifiers [where conv = decimal
      and linkage = linkage_single, OF h n]
  from t [where rows = ?rows and old = "Some ex_snapshot", OF l, THEN conjunct2, THEN mp, OF c]
  have 1: "prepare_mat decimal (?header # ?rows) = Inr [[7, 1, 1], [7, 1, 2]]"
    and 2: "hierCC decimal linkage_single (?header # ?rows) (Some ex_snapshot) =
      hierCC_append ex_snapshot [[7, 1, 1], [7, 1, 2]]"
    and 3: "2 \<le> length [[7, 1, 1], [7, 1, 2::int]]
      \<and> is_single_linkage (add_transpose (syn_dist (order_full [[7, 1, 1], [7, 1, 2]])))
          (linkage_single (add_transpose (syn_dist (order_full [[7, 1, 1], [7, 1, 2]])))) \<longrightarrow>
      (\<exists>res. hierCC decimal linkage_single (?header # ?rows) None = Inr res
         \<and> length res = length [[7, 1, 1], [7, 1, 2::int]])"
    unfolding v by simp_all
  have two: "2 \<le> length [[7, 1, 1], [7, 1, 2::int]]" by simp
  from 3 two s
  have "\<exists>res. hierCC decimal linkage_single (?header # ?rows) None = Inr res
      \<and> length res = length [[7, 1, 1], [7, 1, 2::int]]"
    by blast
  then have 4: "\<exists>res. hierCC decimal linkage_single (?header # ?rows) None = Inr res
      \<and> length res = 2"
    by auto
  from t [where rows = ?short and old = None, OF ls, THEN conjunct1, THEN mp, OF m]
  have 5: "\<exists>e. (e = ValueError \<or> e = OverflowError)
      \<and> prepare_mat decimal (?header # ?short) = Inl e
      \<and> hierCC decimal linkage_single (?header # ?short) None = Inl e" .
  from 1 2 4 5 show ?thesis by (intro conjI)
qed

text \<open>
  Two profiles with the identifier 7 are loaded, and the run on them returns a code
  matrix.
\<close>

theorem duplicate_ids_accepted:
  "prepare_mat decimal
     [[Some ''ST_id'', Some ''gene1'', Some ''gene2''],
      [Some ''7'', Some ''1'', Some ''1''],
      [Some ''7'', Some ''1'', Some ''2'']] = Inr [[7, 1, 1], [7, 1, 2]]
   \<and> hierCC decimal linkage_single
     [[Some ''ST_id'', Some ''gene1'', Some ''gene2''],
      [Some ''7'', Some ''1'', Some ''1''],
      [Some ''7'', Some ''1'', Some ''2'']] None = Inr [[7, 7, 7, 7], [7, 7, 7, 7]]"
  by code_simp

end
